theory Spec2Isabelle
  imports Complex_Main "HOL-Library.Word"
begin

unbundle bit_operations_syntax

section \<open>The sxplayer test program: data model\<close>

text \<open>
  The development follows \<^verbatim>\<open>test-prog.c\<close>. C integers are machine words:
  \<^verbatim>\<open>uint64_t\<close> is \<open>64 word\<close>, \<^verbatim>\<open>uint32_t\<close> and the \<^verbatim>\<open>int\<close> flag set are \<open>32 word\<close>.
  Return codes of the probe functions are C \<^verbatim>\<open>int\<close>s that are only compared with
  zero and passed on, so they are HOL integers. A \<^verbatim>\<open>double\<close> is a binary64 number of
  IEEE 754, with its rounding, its infinities and NaN; the arithmetic is defined in the
  next subsection.
\<close>

type_synonym u64 = "64 word"
type_synonym u32 = "32 word"

subsection \<open>Double precision arithmetic\<close>

text \<open>
  The C type \<^verbatim>\<open>double\<close> is the binary64 format, and every operation of the program is
  evaluated in that format and rounded to the nearest representable number, ties going
  to the even significand (\<^verbatim>\<open>FLT_EVAL_METHOD\<close> 0, default rounding mode, no fused
  operations). A value is NaN, an infinity with its sign (\<open>True\<close> for the negative one),
  or a finite number \<open>Fin s m e\<close>, which stands for \<open>(-1)^s * m * 2^e\<close>. Every finite
  binary64 number has this form with \<open>m < 2^53\<close> and \<open>-1074 \<le> e \<le> 971\<close>; the two zeros
  are \<open>Fin False 0 e\<close> and \<open>Fin True 0 e\<close>. The operations accept every triple and
  return numbers in that range.
\<close>

datatype double = NaN | Infty bool | Fin bool nat int

text \<open>The number of binary digits of a natural number.\<close>

fun bitlen :: "nat \<Rightarrow> int" where
  "bitlen n = (if n = 0 then 0 else 1 + bitlen (n div 2))"

declare bitlen.simps [simp del]

text \<open>
  Rounding the positive rational \<open>n / d * 2^e\<close> at the exponent \<open>E\<close>, that is to a multiple
  of \<open>2^E\<close>. With \<open>k = e - E\<close>, the number is \<open>n * 2^k / d\<close>, a quotient of two natural
  numbers also when \<open>k\<close> is negative; the integer quotient is the multiple below, and
  the remainder compared with half the divisor tells whether the multiple above is
  nearer. On a tie the even multiple is taken.
\<close>

definition scaled_num :: "nat \<Rightarrow> int \<Rightarrow> nat" where
  "scaled_num n k = (if 0 \<le> k then n * 2 ^ nat k else n)"

definition scaled_den :: "nat \<Rightarrow> int \<Rightarrow> nat" where
  "scaled_den d k = (if 0 \<le> k then d else d * 2 ^ nat (- k))"

definition nearest_even :: "nat \<Rightarrow> nat \<Rightarrow> nat \<Rightarrow> nat" where
  "nearest_even q r D = (if D < 2 * r \<or> (2 * r = D \<and> q mod 2 = 1) then q + 1 else q)"

text \<open>
  The exponent at which a number is rounded is the one that leaves 53 significant
  bits, and -1074 for the subnormal numbers below that. From the bit lengths of \<open>n\<close> and
  \<open>d\<close> the first guess \<open>E0\<close> leaves 53 or 54 bits; in the second case the exponent is one
  more.
\<close>

definition pick_exponent :: "nat \<Rightarrow> nat \<Rightarrow> int \<Rightarrow> int \<Rightarrow> int" where
  "pick_exponent n d e E0 =
     max (if 2 ^ 53 \<le> scaled_num n (e - E0) div scaled_den d (e - E0) then E0 + 1 else E0)
       (- 1074)"

definition exponent_of :: "nat \<Rightarrow> nat \<Rightarrow> int \<Rightarrow> int" where
  "exponent_of n d e = pick_exponent n d e (bitlen n - bitlen d - 53 + e)"

text \<open>
  A rounded magnitude of \<open>2^1024\<close> or more is an overflow, and the result is infinite.
  The significand \<open>2^53\<close>, reached when rounding carries, stands for \<open>2^52\<close> at the next
  exponent.
\<close>

definition finite_or_inf :: "bool \<Rightarrow> nat \<Rightarrow> int \<Rightarrow> double" where
  "finite_or_inf s m E = (if 971 < E \<or> (E = 971 \<and> 2 ^ 53 \<le> m) then Infty s else Fin s m E)"

definition round_at :: "bool \<Rightarrow> nat \<Rightarrow> nat \<Rightarrow> int \<Rightarrow> int \<Rightarrow> double" where
  "round_at s n d e E =
     finite_or_inf s
       (nearest_even (scaled_num n (e - E) div scaled_den d (e - E))
          (scaled_num n (e - E) mod scaled_den d (e - E)) (scaled_den d (e - E))) E"

text \<open>
  \<open>round_to s n d e\<close> is the binary64 number nearest to \<open>(-1)^s * n / d * 2^e\<close>, for
  \<open>0 < d\<close>. The sum, the product and the quotient of two finite numbers are such
  rationals, and each operation rounds its exact result once.
\<close>

definition round_to :: "bool \<Rightarrow> nat \<Rightarrow> nat \<Rightarrow> int \<Rightarrow> double" where
  "round_to s n d e = (if n = 0 then Fin s 0 0 else round_at s n d e (exponent_of n d e))"

text \<open>Unary minus and \<^verbatim>\<open>fabs\<close> act on the sign alone.\<close>

fun dneg :: "double \<Rightarrow> double" where
  "dneg NaN = NaN"
| "dneg (Infty s) = Infty (\<not> s)"
| "dneg (Fin s m e) = Fin (\<not> s) m e"

fun fabs :: "double \<Rightarrow> double" where
  "fabs NaN = NaN"
| "fabs (Infty s) = Infty False"
| "fabs (Fin s m e) = Fin False m e"

text \<open>
  Addition. The two magnitudes are brought to the smaller exponent, where they are
  natural numbers, and the exact sum or difference is rounded. An exact zero obtained
  from two numbers of opposite signs is the positive zero.
\<close>

definition add_aligned :: "bool \<Rightarrow> nat \<Rightarrow> bool \<Rightarrow> nat \<Rightarrow> int \<Rightarrow> double" where
  "add_aligned s1 a1 s2 a2 e =
     (if s1 = s2 then round_to s1 (a1 + a2) 1 e
      else if a2 < a1 then round_to s1 (a1 - a2) 1 e
      else if a1 < a2 then round_to s2 (a2 - a1) 1 e
      else Fin False 0 0)"

fun dadd :: "double \<Rightarrow> double \<Rightarrow> double" where
  "dadd NaN y = NaN"
| "dadd x NaN = NaN"
| "dadd (Infty s) (Infty s') = (if s = s' then Infty s else NaN)"
| "dadd (Infty s) (Fin s' m e) = Infty s"
| "dadd (Fin s m e) (Infty s') = Infty s'"
| "dadd (Fin s1 m1 e1) (Fin s2 m2 e2) =
     add_aligned s1 (m1 * 2 ^ nat (e1 - min e1 e2)) s2 (m2 * 2 ^ nat (e2 - min e1 e2)) (min e1 e2)"

definition dsub :: "double \<Rightarrow> double \<Rightarrow> double" where
  "dsub x y = dadd x (dneg y)"

fun dmul :: "double \<Rightarrow> double \<Rightarrow> double" where
  "dmul NaN y = NaN"
| "dmul x NaN = NaN"
| "dmul (Infty s) (Infty s') = Infty (s \<noteq> s')"
| "dmul (Infty s) (Fin s' m e) = (if m = 0 then NaN else Infty (s \<noteq> s'))"
| "dmul (Fin s m e) (Infty s') = (if m = 0 then NaN else Infty (s \<noteq> s'))"
| "dmul (Fin s1 m1 e1) (Fin s2 m2 e2) = round_to (s1 \<noteq> s2) (m1 * m2) 1 (e1 + e2)"

fun ddiv :: "double \<Rightarrow> double \<Rightarrow> double" where
  "ddiv NaN y = NaN"
| "ddiv x NaN = NaN"
| "ddiv (Infty s) (Infty s') = NaN"
| "ddiv (Infty s) (Fin s' m e) = Infty (s \<noteq> s')"
| "ddiv (Fin s m e) (Infty s') = Fin (s \<noteq> s') 0 0"
| "ddiv (Fin s1 m1 e1) (Fin s2 m2 e2) =
     (if m2 = 0 then (if m1 = 0 then NaN else Infty (s1 \<noteq> s2))
      else round_to (s1 \<noteq> s2) m1 m2 (e1 - e2))"

text \<open>
  Comparisons. A comparison with a NaN is false. Two finite numbers are compared as
  integers once they are brought to the smaller of their exponents.
\<close>

definition aligned :: "bool \<Rightarrow> nat \<Rightarrow> int \<Rightarrow> int \<Rightarrow> int" where
  "aligned s m e e' = (if s then - 1 else 1) * int (m * 2 ^ nat (e - e'))"

fun dlt :: "double \<Rightarrow> double \<Rightarrow> bool" where
  "dlt NaN y = False"
| "dlt x NaN = False"
| "dlt (Infty s) (Infty s') = (s \<and> \<not> s')"
| "dlt (Infty s) (Fin s' m e) = s"
| "dlt (Fin s m e) (Infty s') = (\<not> s')"
| "dlt (Fin s1 m1 e1) (Fin s2 m2 e2) =
     (aligned s1 m1 e1 (min e1 e2) < aligned s2 m2 e2 (min e1 e2))"

definition dgt :: "double \<Rightarrow> double \<Rightarrow> bool" where
  "dgt x y = dlt y x"

fun dle :: "double \<Rightarrow> double \<Rightarrow> bool" where
  "dle NaN y = False"
| "dle x NaN = False"
| "dle (Infty s) (Infty s') = (if s' then s else True)"
| "dle (Infty s) (Fin s' m e) = s"
| "dle (Fin s m e) (Infty s') = (\<not> s')"
| "dle (Fin s1 m1 e1) (Fin s2 m2 e2) =
     (aligned s1 m1 e1 (min e1 e2) \<le> aligned s2 m2 e2 (min e1 e2))"

text \<open>
  The conversion of a C \<^verbatim>\<open>int\<close> to \<^verbatim>\<open>double\<close>, and the value of a decimal constant of
  the source text: \<open>dlit n d\<close> is the \<^verbatim>\<open>double\<close> nearest to \<open>n / d\<close>, so that \<^verbatim>\<open>7.12\<close> is
  \<open>dlit 712 100\<close>.
\<close>

definition dof_int :: "int \<Rightarrow> double" where
  "dof_int i = round_to (i < 0) (nat \<bar>i\<bar>) 1 0"

definition dlit :: "nat \<Rightarrow> nat \<Rightarrow> double" where
  "dlit n d = round_to False n d 0"

text \<open>The real number a finite \<^verbatim>\<open>double\<close> stands for.\<close>

fun valof :: "double \<Rightarrow> real option" where
  "valof (Fin s m e) =
     Some ((if s then - 1 else 1) * real m * (if 0 \<le> e then 2 ^ nat e else 1 / 2 ^ nat (- e)))"
| "valof x = None"

subsection \<open>Constants and the player interface\<close>

text \<open>\<^verbatim>\<open>enum action\<close>: the value \<open>EOA\<close> ends a sequence, \<open>NB_ACTIONS\<close> counts the enumerators.\<close>

definition EOA :: u64 where "EOA = 0"
definition ACTION_PREFETCH :: u64 where "ACTION_PREFETCH = 1"
definition ACTION_FETCH_INFO :: u64 where "ACTION_FETCH_INFO = 2"
definition ACTION_START :: u64 where "ACTION_START = 3"
definition ACTION_MIDDLE :: u64 where "ACTION_MIDDLE = 4"
definition ACTION_END :: u64 where "ACTION_END = 5"
definition NB_ACTIONS :: nat where "NB_ACTIONS = 6"

definition BITS_PER_ACTION :: nat where "BITS_PER_ACTION = 4"

definition N :: nat where "N = 4"
definition SOURCE_FPS :: int where "SOURCE_FPS = 25"

definition FLAG_SKIP :: u32 where "FLAG_SKIP = push_bit 0 1"
definition FLAG_TRIM_DURATION :: u32 where "FLAG_TRIM_DURATION = push_bit 1 1"
definition FLAG_AUDIO :: u32 where "FLAG_AUDIO = push_bit 2 1"

definition TESTVAL_SKIP :: double where "TESTVAL_SKIP = dlit 712 100"
definition TESTVAL_TRIM_DURATION :: double where "TESTVAL_TRIM_DURATION = dlit 5343 100"

text \<open>The largest finite \<^verbatim>\<open>double\<close> of \<^verbatim>\<open>float.h\<close>.\<close>

definition DBL_MAX :: double where "DBL_MAX = Fin False (2 ^ 53 - 1) 971"

text \<open>
  Modelled from the spec: \<^verbatim>\<open>av_clipd\<close> is a function of libavutil and is not part of
  the source; the spec calls it \<open>clip(requested_time, 0, trim_duration)\<close>. It bounds
  its first argument between the other two, by two comparisons of \<^verbatim>\<open>double\<close>s, so that a
  NaN, which compares false, is returned as it is.
\<close>

definition av_clipd :: "double \<Rightarrow> double \<Rightarrow> double \<Rightarrow> double" where
  "av_clipd a amin amax = (if dlt a amin then amin else if dgt a amax then amax else a)"

text \<open>
  Modelled from the spec: \<^verbatim>\<open>sxplayer.h\<close> is not part of the source. Of
  \<^verbatim>\<open>struct sxplayer_info\<close> and \<^verbatim>\<open>struct sxplayer_frame\<close> only the fields the test program
  reads are kept. The buffer behind the \<^verbatim>\<open>data\<close> pointer is the list of its 32-bit
  words, the first of which is what \<^verbatim>\<open>*(const uint32_t *)f->data\<close> reads.
\<close>

record sxplayer_info =
  width :: int
  height :: int

record sxplayer_frame =
  ts :: double
  data :: "u32 list"

text \<open>What C leaves undefined is an explicit fault of the model.\<close>

datatype fault = NullDeref | EmptyData | BadAction

text \<open>
  Modelled from the spec: the player engine behind \<^verbatim>\<open>struct sxplayer_ctx\<close> is external.
  A session is described by what the engine is going to answer (the return code of a
  prefetch, the answer to an information request, and the frames or NULL pointers it
  hands out on successive frame requests) together with the log of the API calls made
  so far. Releasing a NULL frame does nothing but is logged.
\<close>

datatype api_call =
    Call_prefetch
  | Call_get_info
  | Call_get_frame double "sxplayer_frame option"
  | Call_get_next_frame "sxplayer_frame option"
  | Call_release_frame "sxplayer_frame option"

record sxplayer_ctx =
  prefetch_ret :: int
  info_ret :: int
  info :: sxplayer_info
  frames :: "sxplayer_frame option list"
  calls :: "api_call list"

definition sxplayer_prefetch :: "sxplayer_ctx \<Rightarrow> int \<times> sxplayer_ctx" where
  "sxplayer_prefetch s = (prefetch_ret s, s\<lparr>calls := calls s @ [Call_prefetch]\<rparr>)"

definition sxplayer_get_info :: "sxplayer_ctx \<Rightarrow> (int \<times> sxplayer_info) \<times> sxplayer_ctx" where
  "sxplayer_get_info s = ((info_ret s, info s), s\<lparr>calls := calls s @ [Call_get_info]\<rparr>)"

definition sxplayer_get_frame ::
  "sxplayer_ctx \<Rightarrow> double \<Rightarrow> sxplayer_frame option \<times> sxplayer_ctx" where
  "sxplayer_get_frame s t =
     (case frames s of
        [] \<Rightarrow> (None, s\<lparr>calls := calls s @ [Call_get_frame t None]\<rparr>)
      | f # fs \<Rightarrow> (f, s\<lparr>frames := fs, calls := calls s @ [Call_get_frame t f]\<rparr>))"

definition sxplayer_get_next_frame ::
  "sxplayer_ctx \<Rightarrow> sxplayer_frame option \<times> sxplayer_ctx" where
  "sxplayer_get_next_frame s =
     (case frames s of
        [] \<Rightarrow> (None, s\<lparr>calls := calls s @ [Call_get_next_frame None]\<rparr>)
      | f # fs \<Rightarrow> (f, s\<lparr>frames := fs, calls := calls s @ [Call_get_next_frame f]\<rparr>))"

definition sxplayer_release_frame ::
  "sxplayer_ctx \<Rightarrow> sxplayer_frame option \<Rightarrow> sxplayer_ctx" where
  "sxplayer_release_frame s f = s\<lparr>calls := calls s @ [Call_release_frame f]\<rparr>"

text \<open>The frames a session has handed out, and the frames given back to it, in order.\<close>

fun acquired_of :: "api_call list \<Rightarrow> sxplayer_frame list" where
  "acquired_of [] = []"
| "acquired_of (Call_get_frame t (Some f) # cs) = f # acquired_of cs"
| "acquired_of (Call_get_next_frame (Some f) # cs) = f # acquired_of cs"
| "acquired_of (c # cs) = acquired_of cs"

fun released_of :: "api_call list \<Rightarrow> sxplayer_frame list" where
  "released_of [] = []"
| "released_of (Call_release_frame (Some f) # cs) = f # released_of cs"
| "released_of (c # cs) = released_of cs"

section \<open>The probe actions\<close>

definition action_prefetch :: "sxplayer_ctx \<Rightarrow> u32 \<Rightarrow> fault + int \<times> sxplayer_ctx" where
  "action_prefetch s opt_test_flags = Inr (sxplayer_prefetch s)"

definition action_fetch_info :: "sxplayer_ctx \<Rightarrow> u32 \<Rightarrow> fault + int \<times> sxplayer_ctx" where
  "action_fetch_info s opt_test_flags =
     (let ((ret, inf), s') = sxplayer_get_info s in
      if ret < 0 then Inr (ret, s')
      else if width inf \<noteq> 16 \<or> height inf \<noteq> 16 then Inr (- 1, s')
      else Inr (0, s'))"

text \<open>
  \<^verbatim>\<open>check_frame\<close>. The frame id is computed in C \<^verbatim>\<open>int\<close>s from 4-bit fields, so it is
  below 4096. The constants \<^verbatim>\<open>0\<close> and \<^verbatim>\<open>-1\<close> of the two conditional expressions and
  \<^verbatim>\<open>SOURCE_FPS\<close> are \<^verbatim>\<open>int\<close>s converted to \<^verbatim>\<open>double\<close>; \<^verbatim>\<open>1.\<close> is the constant \<open>dlit 1 1\<close>.
  The messages printed on a mismatch are console output and are left out.
\<close>

definition frame_id_of :: "u32 \<Rightarrow> u32" where
  "frame_id_of c =
     (let r = drop_bit (N + 16) c AND 0xf;
          g = drop_bit (N + 8) c AND 0xf;
          b = drop_bit (N + 0) c AND 0xf
      in push_bit (N * 2) r OR push_bit N g OR b)"

text \<open>
  Dereferencing a NULL frame, or reading the first pixel of a frame without pixel data,
  is a fault.
\<close>

definition check_frame :: "sxplayer_frame option \<Rightarrow> double \<Rightarrow> u32 \<Rightarrow> fault + int" where
  "check_frame fp t opt_test_flags =
     (case fp of
        None \<Rightarrow> Inl NullDeref
      | Some f \<Rightarrow>
         (let skip = (if opt_test_flags AND FLAG_SKIP \<noteq> 0 then TESTVAL_SKIP else dof_int 0);
              trim_duration =
                (if opt_test_flags AND FLAG_TRIM_DURATION \<noteq> 0 then TESTVAL_TRIM_DURATION
                 else dof_int (- 1));
              playback_time =
                av_clipd t (dof_int 0)
                  (if dlt trim_duration (dof_int 0) then DBL_MAX else trim_duration);
              frame_ts = ts f;
              estimated_time_from_ts = dsub frame_ts skip;
              diff_ts = fabs (dsub playback_time estimated_time_from_ts)
          in if \<not> (opt_test_flags AND FLAG_AUDIO \<noteq> 0) then
               (case data f of
                  [] \<Rightarrow> Inl EmptyData
                | c # _ \<Rightarrow>
                   (let frame_id = frame_id_of c;
                        video_ts = ddiv (dmul (dof_int (sint frame_id)) (dlit 1 1)) (dof_int SOURCE_FPS);
                        estimated_time_from_color = dsub video_ts skip;
                        diff_color = fabs (dsub playback_time estimated_time_from_color)
                    in if dgt diff_color (ddiv (dlit 1 1) (dof_int SOURCE_FPS)) then Inr (- 1)
                       else if dgt diff_ts (ddiv (dlit 1 1) (dof_int SOURCE_FPS)) then Inr (- 1)
                       else Inr 0))
             else if dgt diff_ts (ddiv (dlit 1 1) (dof_int SOURCE_FPS)) then Inr (- 1)
             else Inr 0))"

text \<open>
  A chain \<^verbatim>\<open>(ret = check_frame(f0, t0, flags)) < 0 || (ret = check_frame(f1, ...)) < 0 || ...\<close>:
  the checks run from left to right and stop at the first negative result, which is
  the value of \<^verbatim>\<open>ret\<close> then; when every check passes, \<^verbatim>\<open>ret\<close> holds the last result.
\<close>

fun check_frames :: "(sxplayer_frame option \<times> double) list \<Rightarrow> u32 \<Rightarrow> int \<Rightarrow> fault + int" where
  "check_frames [] opt_test_flags ret = Inr ret"
| "check_frames ((f, t) # rest) opt_test_flags ret =
     (case check_frame f t opt_test_flags of
        Inl e \<Rightarrow> Inl e
      | Inr ret' \<Rightarrow> if ret' < 0 then Inr ret' else check_frames rest opt_test_flags ret')"

definition action_start :: "sxplayer_ctx \<Rightarrow> u32 \<Rightarrow> fault + int \<times> sxplayer_ctx" where
  "action_start s opt_test_flags =
     (let (frame, s1) = sxplayer_get_frame s (dof_int 0) in
      case check_frame frame (dof_int 0) opt_test_flags of
        Inl e \<Rightarrow> Inl e
      | Inr ret \<Rightarrow>
          if ret < 0 then Inr (ret, s1)
          else Inr (0, sxplayer_release_frame s1 frame))"

definition action_middle :: "sxplayer_ctx \<Rightarrow> u32 \<Rightarrow> fault + int \<times> sxplayer_ctx" where
  "action_middle s opt_test_flags =
     (let (f0, s1) = sxplayer_get_frame s (dlit 300 10);
          (f1, s2) = sxplayer_get_frame s1 (dlit 301 10);
          (f2, s3) = sxplayer_get_frame s2 (dlit 302 10);
          (f3, s4) = sxplayer_get_frame s3 (dlit 150 10);
          (f4, s5) = sxplayer_get_next_frame s4;
          (f5, s6) = sxplayer_get_next_frame s5
      in case check_frames
                [(f0, dlit 300 10), (f1, dlit 301 10), (f2, dlit 302 10), (f3, dlit 150 10),
                 (f4, dadd (dlit 150 10) (ddiv (dlit 1 1) (dof_int SOURCE_FPS))),
                 (f5, dadd (dlit 150 10) (ddiv (dlit 2 1) (dof_int SOURCE_FPS)))]
                opt_test_flags 0 of
           Inl e \<Rightarrow> Inl e
         | Inr ret \<Rightarrow>
             if ret < 0 then Inr (ret, s6)
             else
               (let s7 = sxplayer_release_frame s6 f0;
                    s8 = sxplayer_release_frame s7 f5;
                    s9 = sxplayer_release_frame s8 f1;
                    s10 = sxplayer_release_frame s9 f4;
                    s11 = sxplayer_release_frame s10 f2;
                    s12 = sxplayer_release_frame s11 f3;
                    (g0, s13) = sxplayer_get_next_frame s12;
                    (g1, s14) = sxplayer_get_frame s13 (dlit 160 10);
                    (g2, s15) = sxplayer_get_frame s14 (dlit 16001 1000)
                in case check_frames
                          [(g0, dadd (dlit 150 10) (ddiv (dlit 3 1) (dof_int SOURCE_FPS))),
                           (g1, dlit 160 10)] opt_test_flags ret of
                     Inl e \<Rightarrow> Inl e
                   | Inr ret' \<Rightarrow>
                       if ret' < 0 then Inr (ret', s15)
                       else if g2 \<noteq> None then Inr (- 1, s15)
                       else
                         (let s16 = sxplayer_release_frame s15 g1;
                              s17 = sxplayer_release_frame s16 g0
                          in Inr (0, s17))))"

definition action_end :: "sxplayer_ctx \<Rightarrow> u32 \<Rightarrow> fault + int \<times> sxplayer_ctx" where
  "action_end s opt_test_flags =
     (let (f, s1) = sxplayer_get_frame s (dlit 9999990 10) in
      if f = None then Inr (- 1, s1)
      else
        (let s2 = sxplayer_release_frame s1 f;
             (f', s3) = sxplayer_get_frame s2 (dlit 999990 10)
         in if f' \<noteq> None then Inr (- 1, sxplayer_release_frame s3 f')
            else Inr (0, s3)))"

section \<open>Action sequences packed into 64 bits\<close>

text \<open>
  The table \<^verbatim>\<open>actions_desc\<close> has the six entries 0 to 5. Entry 0 holds two NULL
  pointers and indices from 6 on are outside the array, so looking those up is a fault.
\<close>

definition actions_desc ::
  "u64 \<Rightarrow> (string \<times> (sxplayer_ctx \<Rightarrow> u32 \<Rightarrow> fault + int \<times> sxplayer_ctx)) option" where
  "actions_desc a =
     (if a = ACTION_PREFETCH then Some (''prefetch'', action_prefetch)
      else if a = ACTION_FETCH_INFO then Some (''fetchinfo'', action_fetch_info)
      else if a = ACTION_START then Some (''start'', action_start)
      else if a = ACTION_MIDDLE then Some (''middle'', action_middle)
      else if a = ACTION_END then Some (''end'', action_end)
      else None)"

definition GET_ACTION :: "u64 \<Rightarrow> nat \<Rightarrow> u64" where
  "GET_ACTION c i = drop_bit (i * BITS_PER_ACTION) c AND (push_bit BITS_PER_ACTION 1 - 1)"

text \<open>
  \<^verbatim>\<open>exec_comb\<close>, its \<^verbatim>\<open>for\<close> loop started at position \<open>i\<close>. The line it prints first
  (\<^verbatim>\<open>print_comb_name\<close>) is console output and is left out.
\<close>

function exec_comb_from ::
  "nat \<Rightarrow> sxplayer_ctx \<Rightarrow> u64 \<Rightarrow> u32 \<Rightarrow> fault + int \<times> sxplayer_ctx" where
  "exec_comb_from i s comb opt_test_flags =
     (if i < NB_ACTIONS then
        (let action = GET_ACTION comb i in
         if action = 0 then Inr (0, s)
         else
           (case actions_desc action of
              None \<Rightarrow> Inl BadAction
            | Some (name, func) \<Rightarrow>
               (case func s opt_test_flags of
                  Inl e \<Rightarrow> Inl e
                | Inr (ret, s') \<Rightarrow>
                    if ret < 0 then Inr (ret, s')
                    else exec_comb_from (i + 1) s' comb opt_test_flags)))
      else Inr (0, s))"
  by pat_completeness auto
termination
  by (relation "measure (\<lambda>(i, s, comb, fl). NB_ACTIONS - i)") auto

declare exec_comb_from.simps [simp del]

definition exec_comb :: "sxplayer_ctx \<Rightarrow> u64 \<Rightarrow> u32 \<Rightarrow> fault + int \<times> sxplayer_ctx" where
  "exec_comb s comb opt_test_flags = exec_comb_from 0 s comb opt_test_flags"

text \<open>
  The sequence a packed value stands for, as \<^verbatim>\<open>exec_comb\<close>, \<^verbatim>\<open>print_comb_name\<close> and
  \<^verbatim>\<open>has_dup\<close> read it: the 4-bit fields from position 0 up to the first field that
  is zero, and \<open>NB_ACTIONS\<close> fields at most.
\<close>

definition comb_actions :: "u64 \<Rightarrow> u64 list" where
  "comb_actions comb = takeWhile (\<lambda>a. a \<noteq> 0) (map (GET_ACTION comb) [0..<NB_ACTIONS])"

text \<open>
  The executor as the specification words it: run the actions of a sequence in order,
  each through the callable registered for it, and stop at the first one that fails.
\<close>

fun exec_spec :: "sxplayer_ctx \<Rightarrow> u64 list \<Rightarrow> u32 \<Rightarrow> fault + int \<times> sxplayer_ctx" where
  "exec_spec s [] opt_test_flags = Inr (0, s)"
| "exec_spec s (a # acts) opt_test_flags =
     (case actions_desc a of
        None \<Rightarrow> Inl BadAction
      | Some (name, func) \<Rightarrow>
         (case func s opt_test_flags of
            Inl e \<Rightarrow> Inl e
          | Inr (ret, s') \<Rightarrow>
              if ret < 0 then Inr (ret, s') else exec_spec s' acts opt_test_flags))"

section \<open>The enumerator of action sequences\<close>

text \<open>
  \<^verbatim>\<open>has_dup\<close>, its \<^verbatim>\<open>for\<close> loop started at position \<open>i\<close> with the bit set \<open>actions\<close> of
  the action ids seen so far. The C variable \<^verbatim>\<open>action\<close> is an \<^verbatim>\<open>int\<close> holding a 4-bit
  field, and \<^verbatim>\<open>1 << action\<close> fits an \<^verbatim>\<open>int\<close>; both are kept in 64 bits here.
\<close>

function has_dup_from :: "nat \<Rightarrow> u64 \<Rightarrow> u64 \<Rightarrow> bool" where
  "has_dup_from i comb actions =
     (if i < NB_ACTIONS then
        (let action = GET_ACTION comb i in
         if action = 0 then False
         else if actions AND push_bit (unat action) 1 \<noteq> 0 then True
         else has_dup_from (i + 1) comb (actions OR push_bit (unat action) 1))
      else False)"
  by pat_completeness auto
termination
  by (relation "measure (\<lambda>(i, comb, actions). NB_ACTIONS - i)") auto

declare has_dup_from.simps [simp del]

definition has_dup :: "u64 \<Rightarrow> bool" where
  "has_dup comb = has_dup_from 0 comb 0"

text \<open>
  The loop of \<^verbatim>\<open>get_next_comb\<close>, entered at position \<open>i\<close> with the carry flag
  \<open>need_inc\<close> and the value \<open>ret\<close> built so far. \<open>None\<close> stands for the \<^verbatim>\<open>return EOA\<close>
  inside the loop and \<open>Some ret\<close> for leaving it through \<^verbatim>\<open>break\<close>. The \<^verbatim>\<open>int action\<close>
  is at most 16 and is shifted by at most 20 bits, so no \<^verbatim>\<open>int\<close> overflows and the
  arithmetic is done in 64 bits. The loop tests \<open>i = NB_ACTIONS\<close> as the source does;
  it is also total from positions beyond \<open>NB_ACTIONS\<close>, which the program never
  reaches, because fields beyond bit 63 read as zero.
\<close>

function get_next_comb_loop :: "u64 \<Rightarrow> nat \<Rightarrow> bool \<Rightarrow> u64 \<Rightarrow> u64 option" where
  "get_next_comb_loop comb i need_inc ret =
     (let action = GET_ACTION comb i in
      if i = NB_ACTIONS then None
      else if action = 0 \<and> \<not> need_inc then Some ret
      else if need_inc then
        (if action + 1 = of_nat NB_ACTIONS
         then get_next_comb_loop comb (i + 1) True (ret OR push_bit (i * BITS_PER_ACTION) 1)
         else get_next_comb_loop comb (i + 1) False
                (ret OR push_bit (i * BITS_PER_ACTION) (action + 1)))
      else get_next_comb_loop comb (i + 1) False (ret OR push_bit (i * BITS_PER_ACTION) action))"
  by pat_completeness auto
termination
proof -
  have beyond: "GET_ACTION comb i = 0" if "16 \<le> i" for comb i
    using that by (simp add: GET_ACTION_def BITS_PER_ACTION_def)
  show ?thesis
  proof (relation "measure (\<lambda>(comb, i, need_inc, ret).
            if i \<le> NB_ACTIONS then 40 + (NB_ACTIONS - i)
            else 2 * (16 - i) + (if need_inc then 1 else 0))", goal_cases)
    case 1
    show ?case by simp
  next
    case (2 comb i need_inc ret action)
    then show ?case
      by (cases "16 \<le> i") (auto simp: NB_ACTIONS_def beyond)
  next
    case (3 comb i need_inc ret action)
    then show ?case
      by (cases "16 \<le> i") (auto simp: NB_ACTIONS_def beyond)
  next
    case (4 comb i need_inc ret action)
    then show ?case
      by (cases "16 \<le> i") (auto simp: NB_ACTIONS_def beyond)
  qed
qed

declare get_next_comb_loop.simps [simp del]

text \<open>
  \<^verbatim>\<open>get_next_comb\<close>: the candidate built by the loop is returned when it has no
  duplicate, and is incremented again otherwise. That this recursion ends on every
  input is proved below, after the lemmas it needs.
\<close>

function get_next_comb :: "u64 \<Rightarrow> u64" where
  "get_next_comb comb =
     (case get_next_comb_loop comb 0 True 0 of
        None \<Rightarrow> EOA
      | Some ret \<Rightarrow> if has_dup ret then get_next_comb ret else ret)"
  by pat_completeness auto

text \<open>
  The enumeration loop of \<^verbatim>\<open>run_tests_all_combs\<close> with every test passing: starting
  from \<open>comb\<close>, \<^verbatim>\<open>get_next_comb\<close> is applied to the value it returned before until it
  returns \<open>EOA\<close>; the result is the list of the values handed to \<^verbatim>\<open>exec_comb\<close>. The
  first argument bounds the number of calls, and \<open>None\<close> says the bound was too small.
\<close>

fun all_combs :: "nat \<Rightarrow> u64 \<Rightarrow> u64 list option" where
  "all_combs 0 comb = None"
| "all_combs (Suc n) comb =
     (let comb' = get_next_comb comb in
      if comb' = EOA then Some [] else map_option (Cons comb') (all_combs n comb'))"

section \<open>Auxiliary notions for the proofs\<close>

text \<open>
  A packed value is read as the list of its \<open>NB_ACTIONS\<close> 4-bit fields, position 0
  first; \<open>pack\<close> goes the other way. On such lists the loop of \<^verbatim>\<open>get_next_comb\<close> is a
  carry phase (\<open>acarry\<close>) followed by a copy phase (\<open>acopy\<close>); a field of 15 is
  incremented to 16, which spills one bit into the next field (\<open>or1\<close>).
\<close>

fun pack :: "u64 list \<Rightarrow> u64" where
  "pack [] = 0"
| "pack (b # bs) = b OR push_bit 4 (pack bs)"

definition nibs :: "u64 \<Rightarrow> u64 list" where
  "nibs c = map (GET_ACTION c) [0..<NB_ACTIONS]"

fun acopy :: "u64 list \<Rightarrow> u64 list option" where
  "acopy [] = None"
| "acopy (a # as) = (if a = 0 then Some [] else map_option (Cons a) (acopy as))"

fun or1 :: "u64 list \<Rightarrow> u64 list" where
  "or1 [] = [1]"
| "or1 (c # cs) = (c OR 1) # cs"

fun acarry :: "u64 list \<Rightarrow> u64 list option" where
  "acarry [] = None"
| "acarry (a # as) =
     (if a = 5 then map_option (Cons 1) (acarry as)
      else if a = 15 then map_option (\<lambda>bs. 0 # or1 bs) (acopy as)
      else map_option (Cons (a + 1)) (acopy as))"

text \<open>
  Measures on field lists: the number of fields above 5, the length of the leading
  run of nonzero fields, and the base-16 value of that run.
\<close>

definition nbig :: "u64 list \<Rightarrow> nat" where
  "nbig xs = length (filter (\<lambda>a. 6 \<le> a) xs)"

definition alen :: "u64 list \<Rightarrow> nat" where
  "alen xs = length (takeWhile (\<lambda>a. a \<noteq> 0) xs)"

fun val :: "u64 list \<Rightarrow> nat" where
  "val [] = 0"
| "val (a # as) = unat a + 16 * val as"

definition aval :: "u64 list \<Rightarrow> nat" where
  "aval xs = val (takeWhile (\<lambda>a. a \<noteq> 0) xs)"

text \<open>The loop of \<^verbatim>\<open>has_dup\<close> on a field list.\<close>

fun adup :: "u64 list \<Rightarrow> u64 \<Rightarrow> bool" where
  "adup [] m = False"
| "adup (a # as) m =
     (if a = 0 then False
      else if m AND push_bit (unat a) 1 \<noteq> 0 then True
      else adup as (m OR push_bit (unat a) 1))"

text \<open>
  The action ids other than the terminator, and the sequences over them. \<open>odo_inc\<close>
  is the increment of an odometer whose wheels show 1 to 5, position 0 turning first;
  \<open>rank\<close> numbers the sequences in the order this increment visits them, and
  \<open>first_rank n\<close> is the rank of the first sequence of length \<open>n\<close>. \<open>later_seqs xs\<close>
  are the duplicate-free sequences of at most five actions that come after \<open>xs\<close>.
\<close>

definition action_ids :: "u64 set" where
  "action_ids = {ACTION_PREFETCH, ACTION_FETCH_INFO, ACTION_START, ACTION_MIDDLE, ACTION_END}"

fun odo_inc :: "u64 list \<Rightarrow> u64 list" where
  "odo_inc [] = [1]"
| "odo_inc (a # as) = (if a = 5 then 1 # odo_inc as else (a + 1) # as)"

fun rank :: "u64 list \<Rightarrow> nat" where
  "rank [] = 0"
| "rank (a # as) = unat a + 5 * rank as"

fun first_rank :: "nat \<Rightarrow> nat" where
  "first_rank 0 = 0"
| "first_rank (Suc n) = 1 + 5 * first_rank n"

definition later_seqs :: "u64 list \<Rightarrow> u64 list set" where
  "later_seqs xs =
     {ys. set ys \<subseteq> action_ids \<and> distinct ys \<and> length ys < NB_ACTIONS \<and> rank xs < rank ys}"

section \<open>Results about the arithmetic\<close>

text \<open>Evaluation of the arithmetic on numerals.\<close>

lemma bitlen_0: "bitlen 0 = 0"
  by (simp add: bitlen.simps)

lemma bitlen_Suc_0: "bitlen (Suc 0) = 1"
  by (subst bitlen.simps) (simp add: bitlen_0)

lemma bitlen_1: "bitlen 1 = 1"
  using bitlen_Suc_0 by simp

lemma bitlen_numeral: "bitlen (numeral k) = 1 + bitlen (numeral k div 2)"
  by (subst bitlen.simps) simp

lemmas ieee_eval =
  round_to_def round_at_def finite_or_inf_def nearest_even_def exponent_of_def pick_exponent_def
  scaled_num_def scaled_den_def add_aligned_def bitlen_0 bitlen_1 bitlen_Suc_0 bitlen_numeral
  dsub_def dgt_def dof_int_def dlit_def aligned_def

lemma lit_0: "dof_int 0 = Fin False 0 0"
  by (simp add: ieee_eval)

lemma lit_m1: "dof_int (- 1) = Fin True 4503599627370496 (- 52)"
  by (simp add: ieee_eval)

lemma lit_1:
  "dlit 1 1 = Fin False 4503599627370496 (- 52)"
  "dlit (Suc 0) (Suc 0) = Fin False 4503599627370496 (- 52)"
  by (simp_all add: ieee_eval)

lemma lit_25: "dof_int 25 = Fin False 7036874417766400 (- 48)"
  by (simp add: ieee_eval)

lemma lit_skip: "dlit 712 100 = Fin False 8016407336719483 (- 50)"
  by (simp add: ieee_eval)

lemma lit_trim: "dlit 5343 100 = Fin False 7519604002825175 (- 47)"
  by (simp add: ieee_eval)

lemma tolerance:
  "ddiv (dlit 1 1) (dof_int 25) = Fin False 5764607523034235 (- 57)"
  "ddiv (dlit (Suc 0) (Suc 0)) (dof_int 25) = Fin False 5764607523034235 (- 57)"
  by (simp_all add: lit_1 lit_25) (simp_all add: ieee_eval)

text \<open>
  Some values of the arithmetic, among them familiar ones of binary64:
  \<^verbatim>\<open>0.1\<close> is \<^verbatim>\<open>0x1.999999999999ap-4\<close>, \<^verbatim>\<open>0.1 + 0.2\<close> is \<^verbatim>\<open>0x1.3333333333334p-2\<close> and so is
  \<^verbatim>\<open>0.1 * 3\<close>, the sum of two \<^verbatim>\<open>DBL_MAX\<close> overflows, and halving the smallest subnormal
  number is a tie that goes to the even neighbour zero.
\<close>

lemma ieee_examples:
  "dlit 1 10 = Fin False 7205759403792794 (- 56)"
  "dadd (dlit 1 10) (dlit 2 10) = Fin False 5404319552844596 (- 54)"
  "dmul (dlit 1 10) (dof_int 3) = Fin False 5404319552844596 (- 54)"
  "ddiv (dof_int 1) (dof_int 3) = Fin False 6004799503160661 (- 54)"
  "dadd DBL_MAX DBL_MAX = Infty False"
  "ddiv (dof_int 0) (dof_int 0) = NaN"
  "ddiv (Fin False 1 (- 1074)) (dof_int 2) = Fin False 0 (- 1074)"
  "ddiv (Fin False 3 (- 1074)) (dof_int 2) = Fin False 2 (- 1074)"
  by (simp_all add: ieee_eval DBL_MAX_def)

text \<open>Rounding never produces a NaN.\<close>

lemma round_to_cases:
  "(\<exists>m e'. round_to s n d e = Fin s m e') \<or> round_to s n d e = Infty s"
  by (simp add: round_to_def round_at_def finite_or_inf_def)

lemma round_to_not_NaN: "round_to s n d e \<noteq> NaN"
  using round_to_cases [of s n d e] by auto

lemma dadd_Fin_not_NaN: "y \<noteq> NaN \<Longrightarrow> dadd (Fin s m e) y \<noteq> NaN"
  by (cases y) (simp_all add: add_aligned_def round_to_not_NaN)

lemma dsub_Fin_not_NaN: "y \<noteq> NaN \<Longrightarrow> dsub (Fin s m e) y \<noteq> NaN"
  unfolding dsub_def by (rule dadd_Fin_not_NaN) (cases y, simp_all)

lemma dsub_not_NaN_Fin: "x \<noteq> NaN \<Longrightarrow> dsub x (Fin s m e) \<noteq> NaN"
  unfolding dsub_def by (cases x) (simp_all add: add_aligned_def round_to_not_NaN)

lemma fabs_not_NaN: "x \<noteq> NaN \<Longrightarrow> fabs x \<noteq> NaN"
  by (cases x) simp_all

lemma not_dgt_iff_dle: "x \<noteq> NaN \<Longrightarrow> y \<noteq> NaN \<Longrightarrow> \<not> dgt x y \<longleftrightarrow> dle x y"
  unfolding dgt_def by (cases x; cases y) (auto simp: min.commute)

lemma dmul_not_NaN: "x \<noteq> NaN \<Longrightarrow> m \<noteq> 0 \<Longrightarrow> dmul x (Fin s m e) \<noteq> NaN"
  by (cases x) (simp_all add: round_to_not_NaN)

lemma ddiv_not_NaN: "x \<noteq> NaN \<Longrightarrow> m \<noteq> 0 \<Longrightarrow> ddiv x (Fin s m e) \<noteq> NaN"
  by (cases x) (simp_all add: round_to_not_NaN)

text \<open>On finite numbers the comparisons are those of the real numbers they stand for.\<close>

lemma valof_aligned:
  "e' \<le> e \<Longrightarrow> valof (Fin s m e) = Some (real_of_int (aligned s m e e') * 2 powi e')"
proof -
  assume le: "e' \<le> e"
  have p: "(if 0 \<le> e then 2 ^ nat e else 1 / 2 ^ nat (- e)) = (2::real) powi e"
    by (simp add: power_int_def field_simps)
  have q: "(2::real) ^ nat (e - e') = 2 powi (e - e')"
    using le by (simp add: power_int_def)
  have "(2::real) powi e = 2 powi (e - e') * 2 powi e'"
    by (simp flip: power_int_add)
  then show ?thesis
    by (simp add: p q aligned_def)
qed

lemma dle_valof:
  assumes "valof x = Some a" "valof y = Some b"
  shows "dle x y \<longleftrightarrow> a \<le> b"
proof -
  obtain s1 m1 e1 where x: "x = Fin s1 m1 e1" using assms(1) by (cases x) simp_all
  obtain s2 m2 e2 where y: "y = Fin s2 m2 e2" using assms(2) by (cases y) simp_all
  let ?e = "min e1 e2"
  have a: "a = real_of_int (aligned s1 m1 e1 ?e) * 2 powi ?e"
    using assms(1) valof_aligned [of ?e e1 s1 m1] unfolding x by simp
  have b: "b = real_of_int (aligned s2 m2 e2 ?e) * 2 powi ?e"
    using assms(2) valof_aligned [of ?e e2 s2 m2] unfolding y by simp
  have pos: "(0::real) < 2 powi ?e" by simp
  show ?thesis
    unfolding x y a b using pos by (simp del: valof.simps)
qed

lemma dlt_valof:
  assumes "valof x = Some a" "valof y = Some b"
  shows "dlt x y \<longleftrightarrow> a < b"
proof -
  obtain s1 m1 e1 where x: "x = Fin s1 m1 e1" using assms(1) by (cases x) simp_all
  obtain s2 m2 e2 where y: "y = Fin s2 m2 e2" using assms(2) by (cases y) simp_all
  let ?e = "min e1 e2"
  have a: "a = real_of_int (aligned s1 m1 e1 ?e) * 2 powi ?e"
    using assms(1) valof_aligned [of ?e e1 s1 m1] unfolding x by simp
  have b: "b = real_of_int (aligned s2 m2 e2 ?e) * 2 powi ?e"
    using assms(2) valof_aligned [of ?e e2 s2 m2] unfolding y by simp
  have pos: "(0::real) < 2 powi ?e" by simp
  show ?thesis
    unfolding x y a b using pos by (simp del: valof.simps)
qed

text \<open>The bit length of a number bounds it by powers of two.\<close>

lemma bitlen_nonneg: "0 \<le> bitlen n"
  by (induction n rule: bitlen.induct) (subst bitlen.simps, simp)

lemma bitlen_upper: "n < 2 ^ nat (bitlen n)"
proof (induction n rule: bitlen.induct)
  case (1 n)
  show ?case
  proof (cases "n = 0")
    case True
    then show ?thesis by (subst bitlen.simps) simp
  next
    case False
    have nn: "0 \<le> bitlen (n div 2)" by (rule bitlen_nonneg)
    have b: "bitlen n = 1 + bitlen (n div 2)" using False by (subst bitlen.simps) simp
    have "n div 2 < 2 ^ nat (bitlen (n div 2))" using 1 False by simp
    then have "n < 2 * 2 ^ nat (bitlen (n div 2))" by linarith
    also have "\<dots> = 2 ^ nat (bitlen n)"
      using nn by (simp add: b nat_add_distrib)
    finally show ?thesis .
  qed
qed

lemma bitlen_lower: "0 < n \<Longrightarrow> 1 \<le> bitlen n \<and> 2 ^ nat (bitlen n - 1) \<le> n"
proof (induction n rule: bitlen.induct)
  case (1 n)
  then have n0: "n \<noteq> 0" by simp
  have b: "bitlen n = 1 + bitlen (n div 2)" using n0 by (subst bitlen.simps) simp
  show ?case
  proof (cases "n div 2 = 0")
    case True
    then have "bitlen (n div 2) = 0" by (simp add: bitlen.simps)
    with b 1 show ?thesis by simp
  next
    case False
    then have ih: "1 \<le> bitlen (n div 2)" "2 ^ nat (bitlen (n div 2) - 1) \<le> n div 2"
      using 1 n0 by simp_all
    have "(2::nat) ^ nat (bitlen n - 1) = 2 * 2 ^ nat (bitlen (n div 2) - 1)"
      using ih(1) by (simp add: b flip: power_Suc)
    also have "\<dots> \<le> 2 * (n div 2)" using ih(2) by simp
    also have "\<dots> \<le> n" by simp
    finally show ?thesis using ih(1) b by simp
  qed
qed

lemma scaled_ratio:
  "0 < d \<Longrightarrow> real (scaled_num n k) / real (scaled_den d k) = real n / real d * 2 powi k"
  by (simp add: scaled_num_def scaled_den_def power_int_def power_inverse field_simps)

lemma scaled_den_pos: "0 < d \<Longrightarrow> 0 < scaled_den d k"
  by (simp add: scaled_den_def)

lemma nearest_even_half:
  assumes "0 < D"
  shows "\<bar>real (nearest_even (A div D) (A mod D) D) - real A / real D\<bar> \<le> 1 / 2"
    and "\<bar>real (nearest_even (A div D) (A mod D) D) - real A / real D\<bar> = 1 / 2
         \<Longrightarrow> even (nearest_even (A div D) (A mod D) D)"
    and "A div D \<le> nearest_even (A div D) (A mod D) D"
    and "nearest_even (A div D) (A mod D) D \<le> A div D + 1"
proof -
  define q where "q = A div D"
  define r where "r = A mod D"
  define \<rho> where "\<rho> = real r / real D"
  have "real A = real q * real D + real r"
    unfolding q_def r_def by (metis of_nat_add of_nat_mult div_mult_mod_eq)
  then have A: "real A / real D = real q + \<rho>"
    unfolding \<rho>_def using assms by (simp add: field_simps)
  have "r < D" unfolding r_def using assms by simp
  then have \<rho>1: "\<rho> < 1" and \<rho>0: "0 \<le> \<rho>"
    unfolding \<rho>_def using assms by simp_all
  have "real D < real (2 * r) \<longleftrightarrow> D < 2 * r" by (rule of_nat_less_iff)
  then have gt: "D < 2 * r \<longleftrightarrow> 1 / 2 < \<rho>"
    unfolding \<rho>_def using assms by (simp add: field_simps)
  have "real (2 * r) = real D \<longleftrightarrow> 2 * r = D" by (rule of_nat_eq_iff)
  then have eq: "2 * r = D \<longleftrightarrow> \<rho> = 1 / 2"
    unfolding \<rho>_def using assms by (auto simp: field_simps)
  show m1: "\<bar>real (nearest_even (A div D) (A mod D) D) - real A / real D\<bar> \<le> 1 / 2"
  proof (cases "D < 2 * r \<or> (2 * r = D \<and> q mod 2 = 1)")
    case True
    then have "nearest_even q r D = q + 1" by (simp add: nearest_even_def)
    moreover from True have "1 / 2 \<le> \<rho>" using gt eq by auto
    ultimately show ?thesis
      unfolding A q_def [symmetric] r_def [symmetric] using \<rho>1 by simp
  next
    case False
    then have "nearest_even q r D = q" by (simp add: nearest_even_def)
    moreover from False have "\<rho> \<le> 1 / 2" using gt by auto
    ultimately show ?thesis
      unfolding A q_def [symmetric] r_def [symmetric] using \<rho>0 by simp
  qed
  show "even (nearest_even (A div D) (A mod D) D)"
    if tie: "\<bar>real (nearest_even (A div D) (A mod D) D) - real A / real D\<bar> = 1 / 2"
  proof (cases "D < 2 * r \<or> (2 * r = D \<and> q mod 2 = 1)")
    case True
    then have m: "nearest_even q r D = q + 1" by (simp add: nearest_even_def)
    from tie have "\<rho> = 1 / 2"
      unfolding A q_def [symmetric] r_def [symmetric] m using \<rho>1 by simp
    with True gt eq have "q mod 2 = 1" by auto
    then show ?thesis
      unfolding q_def [symmetric] r_def [symmetric] m by (simp add: odd_iff_mod_2_eq_one)
  next
    case False
    then have m: "nearest_even q r D = q" by (simp add: nearest_even_def)
    from tie have "\<rho> = 1 / 2"
      unfolding A q_def [symmetric] r_def [symmetric] m using \<rho>0 by simp
    with False eq have "q mod 2 \<noteq> 1" by auto
    then have "even q" by presburger
    then show ?thesis
      unfolding q_def [symmetric] r_def [symmetric] m .
  qed
  show "A div D \<le> nearest_even (A div D) (A mod D) D"
    "nearest_even (A div D) (A mod D) D \<le> A div D + 1"
    by (simp_all add: nearest_even_def)
qed

lemma div_ge_iff: "0 < D \<Longrightarrow> (a::nat) \<le> A div D \<longleftrightarrow> real a \<le> real A / real D"
proof -
  assume D: "0 < D"
  have "a \<le> A div D \<longleftrightarrow> a * D \<le> A" using D by (simp add: less_eq_div_iff_mult_less_eq)
  also have "\<dots> \<longleftrightarrow> real (a * D) \<le> real A" by (simp only: of_nat_le_iff)
  also have "\<dots> \<longleftrightarrow> real a \<le> real A / real D" using D by (simp add: field_simps)
  finally show ?thesis .
qed

lemma ratio_bounds:
  assumes "0 < n" "0 < d"
  shows "2 powi (bitlen n - bitlen d - 1) < real n / real d"
    and "real n / real d < 2 powi (bitlen n - bitlen d + 1)"
proof -
  have bn: "1 \<le> bitlen n" "2 ^ nat (bitlen n - 1) \<le> n" "n < 2 ^ nat (bitlen n)"
    using bitlen_lower [OF assms(1)] bitlen_upper [of n] by simp_all
  have bd: "1 \<le> bitlen d" "2 ^ nat (bitlen d - 1) \<le> d" "d < 2 ^ nat (bitlen d)"
    using bitlen_lower [OF assms(2)] bitlen_upper [of d] by simp_all
  have n1: "2 powi (bitlen n - 1) \<le> real n"
    using bn(1,2) by (simp add: power_int_def)
  have n2: "real n < 2 powi (bitlen n)"
    using bn(1,3) by (simp add: power_int_def)
  have d1: "2 powi (bitlen d - 1) \<le> real d"
    using bd(1,2) by (simp add: power_int_def)
  have d2: "real d < 2 powi (bitlen d)"
    using bd(1,3) by (simp add: power_int_def)
  have dpos: "0 < real d" using assms(2) by simp
  have "2 powi (bitlen n - bitlen d - 1) * real d < 2 powi (bitlen n - bitlen d - 1) * 2 powi (bitlen d)"
    using d2 by (intro mult_strict_left_mono) simp_all
  also have "\<dots> = 2 powi (bitlen n - 1)"
    by (simp flip: power_int_add)
  also have "\<dots> \<le> real n" by (rule n1)
  finally show "2 powi (bitlen n - bitlen d - 1) < real n / real d"
    using dpos by (simp add: field_simps)
  have "real n < 2 powi (bitlen n)" by (rule n2)
  also have "\<dots> = 2 powi (bitlen n - bitlen d + 1) * 2 powi (bitlen d - 1)"
    by (simp flip: power_int_add)
  also have "\<dots> \<le> 2 powi (bitlen n - bitlen d + 1) * real d"
    using d1 by (intro mult_left_mono) simp_all
  finally show "real n / real d < 2 powi (bitlen n - bitlen d + 1)"
    using dpos by (simp add: field_simps)
qed

text \<open>
  The exponent chosen for rounding leaves a significand below \<open>2^53\<close>, and of at least
  \<open>2^52\<close> unless the number is in the subnormal range.
\<close>

lemma exponent_grid:
  fixes n d :: nat and e :: int
  assumes "0 < n" "0 < d"
  defines "E \<equiv> exponent_of n d e"
  defines "y \<equiv> real n / real d * 2 powi (e - E)"
  shows "- 1074 \<le> E" and "y < 2 ^ 53" and "2 ^ 52 \<le> y \<or> E = - 1074"
proof -
  define x0 where "x0 = real n / real d"
  define E0 where "E0 = bitlen n - bitlen d - 53 + e"
  define y0 where "y0 = x0 * 2 powi (e - E0)"
  define c where "c \<longleftrightarrow> 2 ^ 53 \<le> scaled_num n (e - E0) div scaled_den d (e - E0)"
  define E1 where "E1 = (if c then E0 + 1 else E0)"
  define y1 where "y1 = x0 * 2 powi (e - E1)"
  have x0: "0 < x0" unfolding x0_def using assms by simp
  have E: "E = max E1 (- 1074)"
    unfolding E_def exponent_of_def pick_exponent_def E1_def c_def E0_def by simp
  have k0: "e - E0 = 53 - (bitlen n - bitlen d)" unfolding E0_def by simp
  have "2 powi (bitlen n - bitlen d - 1) * 2 powi (e - E0) < x0 * 2 powi (e - E0)"
    unfolding x0_def using ratio_bounds(1) [OF assms(1,2)]
    by (intro mult_strict_right_mono) simp_all
  then have lo: "2 ^ 52 < y0"
    unfolding y0_def k0 by (simp flip: power_int_add)
  have "x0 * 2 powi (e - E0) < 2 powi (bitlen n - bitlen d + 1) * 2 powi (e - E0)"
    unfolding x0_def using ratio_bounds(2) [OF assms(1,2)]
    by (intro mult_strict_right_mono) simp_all
  then have hi: "y0 < 2 ^ 54"
    unfolding y0_def k0 by (simp flip: power_int_add)
  have c: "c \<longleftrightarrow> 2 ^ 53 \<le> y0"
    unfolding c_def y0_def x0_def
    using div_ge_iff [of "scaled_den d (e - E0)" "2 ^ 53" "scaled_num n (e - E0)"]
      scaled_den_pos [OF assms(2)] scaled_ratio [OF assms(2), of n "e - E0"]
    by simp
  have y1: "2 ^ 52 \<le> y1 \<and> y1 < 2 ^ 53"
  proof (cases c)
    case True
    have eq: "e - (E0 + 1) = (e - E0) + (- 1)" by simp
    have "2 powi (e - (E0 + 1)) = (2::real) powi (e - E0) * 2 powi (- 1)"
      unfolding eq by (rule power_int_add) simp
    then have "y1 = y0 / 2" unfolding y1_def y0_def E1_def using True by simp
    with True c hi show ?thesis by simp
  next
    case False
    then have "y1 = y0" unfolding y1_def y0_def E1_def by simp
    with False c lo show ?thesis by simp
  qed
  show "- 1074 \<le> E" unfolding E by simp
  have y: "y = y1 * 2 powi (E1 - E)"
    unfolding y_def y1_def x0_def by (simp flip: power_int_add)
  show "y < 2 ^ 53" "2 ^ 52 \<le> y \<or> E = - 1074"
  proof -
    have le: "E1 \<le> E" unfolding E by simp
    have "(2::real) powi (E1 - E) \<le> 2 powi 0"
      using le by (intro power_int_increasing) simp_all
    then have "y \<le> y1" unfolding y using y1 by (simp add: mult_left_le)
    with y1 show "y < 2 ^ 53" by simp
    show "2 ^ 52 \<le> y \<or> E = - 1074"
    proof (cases "E = E1")
      case True
      then show ?thesis using y y1 by simp
    next
      case False
      then show ?thesis unfolding E by (simp add: max_def split: if_splits)
    qed
  qed
qed

lemma finite_or_inf_iff:
  assumes "m \<le> 2 ^ 53" "2 ^ 52 \<le> m \<or> E = - 1074"
  shows "finite_or_inf s m E = (if 2 powi 1024 \<le> real m * 2 powi E then Infty s else Fin s m E)"
proof -
  have m: "real m \<le> 2 ^ 53" using assms(1) by (metis of_nat_le_iff of_nat_numeral of_nat_power)
  consider "971 < E" | "E = 971" | "E < 971" by linarith
  then show ?thesis
  proof cases
    case 1
    then have "2 ^ 52 \<le> m" using assms(2) by auto
    then have "(2::real) ^ 52 \<le> real m" by (metis of_nat_le_iff of_nat_numeral of_nat_power)
    moreover have "(2::real) powi 972 \<le> 2 powi E"
      using 1 by (intro power_int_increasing) simp_all
    ultimately have "(2::real) ^ 52 * 2 powi 972 \<le> real m * 2 powi E"
      by (intro mult_mono) simp_all
    then have "(2::real) powi 1024 \<le> real m * 2 powi E" by simp
    with 1 show ?thesis by (simp add: finite_or_inf_def)
  next
    case 2
    have "2 ^ 53 \<le> m \<longleftrightarrow> (2::real) ^ 53 \<le> real m"
      by (metis of_nat_le_iff of_nat_numeral of_nat_power)
    also have "\<dots> \<longleftrightarrow> (2::real) ^ 53 * 2 powi 971 \<le> real m * 2 powi 971"
      by simp
    finally show ?thesis using 2 by (simp add: finite_or_inf_def)
  next
    case 3
    have "(2::real) powi E \<le> 2 powi 970"
      using 3 by (intro power_int_increasing) simp_all
    with m have "real m * 2 powi E \<le> 2 ^ 53 * 2 powi 970"
      by (intro mult_mono) simp_all
    then have "real m * 2 powi E < 2 powi 1024" by simp
    with 3 show ?thesis by (simp add: finite_or_inf_def)
  qed
qed

text \<open>
  Rounding is to nearest, ties to even: the result of \<open>round_to\<close> is a multiple \<open>m * 2^E\<close>
  of the unit in the last place that is at most half a unit away from the exact
  number, with an even \<open>m\<close> when it is exactly half a unit away; \<open>m\<close> has at most 53
  bits (\<open>2^53\<close> itself arises from a carry), and exactly 53 unless the exponent is the
  least one, -1074. When that multiple reaches \<open>2^1024\<close> the result is infinite.
\<close>

theorem round_to_nearest:
  fixes n d :: nat and e :: int
  assumes "0 < n" "0 < d"
  defines "x \<equiv> real n / real d * 2 powi e"
  defines "E \<equiv> exponent_of n d e"
  shows "\<exists>m. round_to s n d e = (if 2 powi 1024 \<le> real m * 2 powi E then Infty s else Fin s m E)
           \<and> \<bar>real m * 2 powi E - x\<bar> \<le> 2 powi E / 2
           \<and> (\<bar>real m * 2 powi E - x\<bar> = 2 powi E / 2 \<longrightarrow> even m)
           \<and> m \<le> 2 ^ 53 \<and> (2 ^ 52 \<le> m \<or> E = - 1074) \<and> - 1074 \<le> E"
proof -
  define A where "A = scaled_num n (e - E)"
  define D where "D = scaled_den d (e - E)"
  define m where "m = nearest_even (A div D) (A mod D) D"
  define y where "y = real A / real D"
  have D: "0 < D" unfolding D_def by (rule scaled_den_pos [OF assms(2)])
  have y: "y = real n / real d * 2 powi (e - E)"
    unfolding y_def A_def D_def by (rule scaled_ratio [OF assms(2)])
  have x: "x = y * 2 powi E"
    unfolding x_def y by (simp flip: power_int_add)
  have grid: "- 1074 \<le> E" "y < 2 ^ 53" "2 ^ 52 \<le> y \<or> E = - 1074"
    unfolding y E_def by (rule exponent_grid [OF assms(1,2)])+
  have half: "\<bar>real m - y\<bar> \<le> 1 / 2"
    and tie: "\<bar>real m - y\<bar> = 1 / 2 \<Longrightarrow> even m"
    and lo: "A div D \<le> m" and hi: "m \<le> A div D + 1"
    unfolding m_def y_def using nearest_even_half [OF D, of A] by blast+
  have diff: "real m * 2 powi E - x = (real m - y) * 2 powi E"
    unfolding x by (simp add: algebra_simps)
  have absd: "\<bar>real m * 2 powi E - x\<bar> = \<bar>real m - y\<bar> * 2 powi E"
    unfolding diff by (simp add: abs_mult)
  have c1: "\<bar>real m * 2 powi E - x\<bar> \<le> 2 powi E / 2"
    unfolding absd using half by (simp add: field_simps)
  have c2: "\<bar>real m * 2 powi E - x\<bar> = 2 powi E / 2 \<longrightarrow> even m"
    unfolding absd using tie by (simp add: field_simps)
  have "\<not> 2 ^ 53 \<le> A div D"
    using div_ge_iff [OF D, of "2 ^ 53" A] grid(2) unfolding y_def by simp
  then have c3: "m \<le> 2 ^ 53" using hi by simp
  have c4: "2 ^ 52 \<le> m \<or> E = - 1074"
  proof (cases "E = - 1074")
    case False
    with grid(3) have "2 ^ 52 \<le> y" by simp
    then have "2 ^ 52 \<le> A div D"
      using div_ge_iff [OF D, of "2 ^ 52" A] unfolding y_def by simp
    with lo show ?thesis by simp
  qed simp
  have "round_to s n d e = finite_or_inf s m E"
    unfolding round_to_def round_at_def m_def A_def D_def E_def using assms(1) by simp
  then have c0: "round_to s n d e =
      (if 2 powi 1024 \<le> real m * 2 powi E then Infty s else Fin s m E)"
    using finite_or_inf_iff [OF c3 c4] by simp
  from c0 c1 c2 c3 c4 grid(1) show ?thesis by blast
qed

section \<open>Results about the probes\<close>

lemma flag_simps:
  "FLAG_SKIP = 1" "FLAG_TRIM_DURATION = 2" "FLAG_AUDIO = 4"
  by (simp_all add: FLAG_SKIP_def FLAG_TRIM_DURATION_def FLAG_AUDIO_def)

lemma trim_limit:
  "dlt (dlit 5343 100) (dof_int 0) = False" "dlt (dof_int (- 1)) (dof_int 0) = True"
  by (simp_all add: lit_trim lit_0 lit_m1 aligned_def)

lemma check_frame_video:
  "fl AND FLAG_AUDIO = 0 \<Longrightarrow>
   check_frame (Some \<lparr>ts = fts, data = c # cs\<rparr>) t fl =
     (let skip = (if fl AND FLAG_SKIP \<noteq> 0 then dlit 712 100 else dof_int 0);
          playback_time =
            av_clipd t (dof_int 0)
              (if fl AND FLAG_TRIM_DURATION \<noteq> 0 then dlit 5343 100 else DBL_MAX);
          video_ts = ddiv (dmul (dof_int (sint (frame_id_of c))) (dlit 1 1)) (dof_int 25);
          tolerance = ddiv (dlit 1 1) (dof_int 25)
      in if dgt (fabs (dsub playback_time (dsub video_ts skip))) tolerance then Inr (- 1)
         else if dgt (fabs (dsub playback_time (dsub fts skip))) tolerance then Inr (- 1)
         else Inr 0)"
  by (simp add: check_frame_def Let_def TESTVAL_SKIP_def TESTVAL_TRIM_DURATION_def
      SOURCE_FPS_def trim_limit)

lemma check_frame_audio:
  "fl AND FLAG_AUDIO \<noteq> 0 \<Longrightarrow>
   check_frame (Some \<lparr>ts = fts, data = d\<rparr>) t fl =
     (let skip = (if fl AND FLAG_SKIP \<noteq> 0 then dlit 712 100 else dof_int 0);
          playback_time =
            av_clipd t (dof_int 0)
              (if fl AND FLAG_TRIM_DURATION \<noteq> 0 then dlit 5343 100 else DBL_MAX);
          tolerance = ddiv (dlit 1 1) (dof_int 25)
      in if dgt (fabs (dsub playback_time (dsub fts skip))) tolerance then Inr (- 1)
         else Inr 0)"
  by (simp add: check_frame_def Let_def TESTVAL_SKIP_def TESTVAL_TRIM_DURATION_def
      SOURCE_FPS_def trim_limit)

lemma check_frame_empty:
  "fl AND FLAG_AUDIO = 0 \<Longrightarrow> check_frame (Some \<lparr>ts = fts, data = []\<rparr>) t fl = Inl EmptyData"
  by (simp add: check_frame_def Let_def)

lemma replicate_6: "replicate 6 x = [x, x, x, x, x, x]"
  by (simp add: numeral_eq_Suc)

lemmas check_eval =
  check_frame_def Let_def TESTVAL_SKIP_def TESTVAL_TRIM_DURATION_def SOURCE_FPS_def flag_simps
  av_clipd_def DBL_MAX_def frame_id_of_def N_def ieee_eval

lemma frame_id_of_fields:
  "frame_id_of c =
     push_bit 8 (drop_bit 20 c AND 0xf) OR push_bit 4 (drop_bit 12 c AND 0xf) OR (drop_bit 4 c AND 0xf)"
  by (simp add: frame_id_of_def N_def Let_def)

lemma numeral_15_mask: "(15::'a::len word) = mask 4"
  by (simp add: mask_eq_exp_minus_1)

lemma and_15_take_bit: "(w::'a::len word) AND 15 = take_bit 4 w"
  by (simp add: numeral_15_mask take_bit_eq_mask)

lemma frame_id_of_take: "frame_id_of c = take_bit 12 (frame_id_of c)"
  unfolding frame_id_of_fields and_15_take_bit
  by (rule bit_eqI) (auto simp: bit_simps)

lemma frame_id_of_sint: "0 \<le> sint (frame_id_of c) \<and> sint (frame_id_of c) < 4096"
proof -
  have "sint (frame_id_of c) = sint (take_bit 12 (frame_id_of c))"
    using frame_id_of_take[of c] by simp
  also have "\<dots> = take_bit 12 (sint (frame_id_of c))"
    by (simp add: signed_take_bit_eq)
  finally have eq: "sint (frame_id_of c) = take_bit 12 (sint (frame_id_of c))" .
  have "0 \<le> take_bit 12 (sint (frame_id_of c))" by simp
  moreover have "take_bit 12 (sint (frame_id_of c)) < 2 ^ 12" by (rule take_bit_int_less_exp)
  ultimately show ?thesis using eq by simp
qed

lemma video_ts_not_NaN: "ddiv (dmul (dof_int i) (dlit 1 1)) (dof_int 25) \<noteq> NaN"
  unfolding lit_1 lit_25
  by (intro ddiv_not_NaN dmul_not_NaN) (simp_all add: dof_int_def round_to_not_NaN)

lemma clip_Fin:
  "t \<noteq> NaN \<Longrightarrow>
   \<exists>s m e. av_clipd t (dof_int 0) (if b then dlit 5343 100 else DBL_MAX) = Fin s m e"
  by (cases t) (auto simp: av_clipd_def dgt_def lit_0 lit_trim DBL_MAX_def ex_bool_eq)

lemma skip_Fin: "\<exists>s m e. (if b then dlit 712 100 else dof_int 0) = Fin s m e"
  by (simp add: lit_skip lit_0 ex_bool_eq)

lemma av_clipd_idem:
  "\<not> dlt amin amin \<Longrightarrow> \<not> dlt amax amax \<Longrightarrow> \<not> dlt amax amin \<Longrightarrow>
   av_clipd (av_clipd a amin amax) amin amax = av_clipd a amin amax"
  by (simp add: av_clipd_def dgt_def)

lemma clip_idem:
  "av_clipd (av_clipd t (dof_int 0) (if b then dlit 5343 100 else DBL_MAX)) (dof_int 0)
      (if b then dlit 5343 100 else DBL_MAX)
   = av_clipd t (dof_int 0) (if b then dlit 5343 100 else DBL_MAX)"
  by (rule av_clipd_idem) (simp_all add: lit_0 lit_trim DBL_MAX_def aligned_def)

lemma check_frame_general:
  "check_frame (Some \<lparr>ts = fts, data = c # cs\<rparr>) t fl =
     (let skip = (if fl AND FLAG_SKIP \<noteq> 0 then dlit 712 100 else dof_int 0);
          playback_time =
            av_clipd t (dof_int 0)
              (if fl AND FLAG_TRIM_DURATION \<noteq> 0 then dlit 5343 100 else DBL_MAX);
          video_ts = ddiv (dmul (dof_int (sint (frame_id_of c))) (dlit 1 1)) (dof_int 25);
          tolerance = ddiv (dlit 1 1) (dof_int 25)
      in if fl AND FLAG_AUDIO = 0 \<and>
            dgt (fabs (dsub playback_time (dsub video_ts skip))) tolerance then Inr (- 1)
         else if dgt (fabs (dsub playback_time (dsub fts skip))) tolerance then Inr (- 1)
         else Inr 0)"
  by (cases "fl AND FLAG_AUDIO = 0") (simp_all add: check_frame_video check_frame_audio Let_def)

lemma tolerant_form:
  assumes "fts \<noteq> NaN" "t \<noteq> NaN"
  shows "check_frame (Some \<lparr>ts = fts, data = c # cs\<rparr>) t fl =
        (let skip = (if fl AND FLAG_SKIP \<noteq> 0 then dlit 712 100 else dof_int 0);
             playback_time =
               av_clipd t (dof_int 0)
                 (if fl AND FLAG_TRIM_DURATION \<noteq> 0 then dlit 5343 100 else DBL_MAX);
             video_ts = ddiv (dmul (dof_int (sint (frame_id_of c))) (dlit 1 1)) (dof_int 25);
             tolerance = ddiv (dlit 1 1) (dof_int 25)
         in if dle (fabs (dsub playback_time (dsub fts skip))) tolerance \<and>
               (fl AND FLAG_AUDIO = 0 \<longrightarrow>
                  dle (fabs (dsub playback_time (dsub video_ts skip))) tolerance)
            then Inr 0 else Inr (- 1))"
proof -
  let ?skip = "if fl AND FLAG_SKIP \<noteq> 0 then dlit 712 100 else dof_int 0"
  let ?pt = "av_clipd t (dof_int 0)
                 (if fl AND FLAG_TRIM_DURATION \<noteq> 0 then dlit 5343 100 else DBL_MAX)"
  let ?v = "ddiv (dmul (dof_int (sint (frame_id_of c))) (dlit 1 1)) (dof_int 25)"
  let ?tol = "ddiv (dlit 1 1) (dof_int 25)"
  obtain s m e where sk: "?skip = Fin s m e" using skip_Fin by blast
  obtain s' m' e' where pt: "?pt = Fin s' m' e'" using clip_Fin [OF assms(2)] by blast
  have "dsub fts ?skip \<noteq> NaN"
    unfolding sk by (rule dsub_not_NaN_Fin) (rule assms(1))
  then have d1: "fabs (dsub ?pt (dsub fts ?skip)) \<noteq> NaN"
    unfolding pt by (intro fabs_not_NaN dsub_Fin_not_NaN)
  have "dsub ?v ?skip \<noteq> NaN"
    unfolding sk by (rule dsub_not_NaN_Fin) (rule video_ts_not_NaN)
  then have d2: "fabs (dsub ?pt (dsub ?v ?skip)) \<noteq> NaN"
    unfolding pt by (intro fabs_not_NaN dsub_Fin_not_NaN)
  have tol: "?tol \<noteq> NaN" by (simp add: tolerance)
  show ?thesis
    unfolding check_frame_general Let_def
    using not_dgt_iff_dle [OF d1 tol] not_dgt_iff_dle [OF d2 tol]
    by auto
qed

lemma frame_ids:
  "frame_id_of 0x20F000 = 752" "frame_id_of 0x30A020 = 930" "frame_id_of 0x50E0A0 = 1514"
  "frame_id_of 0x6080E0 = 1678" "frame_id_of 0x50D0C0 = 1500" "frame_id_of 0x503080 = 1336"
  "frame_id_of 0x1080 = 24" "frame_id_of 0xB020 = 178" "frame_id_of 0xB030 = 179"
  "frame_id_of 0x107070 = 375" "frame_id_of 0x30F000 = 1008" "frame_id_of 0 = 0"
  by (simp_all add: frame_id_of_def N_def Let_def)

text \<open>
  C3, as amended. For a frame timestamp and a requested time that are not NaN,
  \<^verbatim>\<open>check_frame\<close> returns 0 exactly when the difference it computes in \<^verbatim>\<open>double\<close>
  arithmetic between the clipped playback time and the frame's timestamp minus the
  skew is at most the \<^verbatim>\<open>double\<close> \<^verbatim>\<open>1./25\<close>, and, on a video frame, the same holds for the time
  derived from the colour of the first pixel; otherwise it returns -1. Every
  subtraction and division is rounded, and the bound itself is the rounded quotient
  \<open>5764607523034235 / 2^57\<close>, with which a finite difference compares as a real number.
  The skew is the \<^verbatim>\<open>double\<close> 7.12 with the skip flag and 0 without it. Without skew and
  trim, a request for 30.1 accepts the timestamp 30.099 and rejects 30.2 (the video
  frames carry frame id 752 in their first pixel); with the skew, a request for 30.1
  accepts the timestamp 37.22 on frame 930 and rejects the timestamp 30.1 on frame 752.
\<close>

theorem check_frame_tolerance:
  "(fts \<noteq> NaN \<and> t \<noteq> NaN \<longrightarrow>
      check_frame (Some \<lparr>ts = fts, data = c # cs\<rparr>) t fl =
        (let skip = (if fl AND FLAG_SKIP \<noteq> 0 then dlit 712 100 else dof_int 0);
             playback_time =
               av_clipd t (dof_int 0)
                 (if fl AND FLAG_TRIM_DURATION \<noteq> 0 then dlit 5343 100 else DBL_MAX);
             video_ts = ddiv (dmul (dof_int (sint (frame_id_of c))) (dlit 1 1)) (dof_int 25);
             tolerance = ddiv (dlit 1 1) (dof_int 25)
         in if dle (fabs (dsub playback_time (dsub fts skip))) tolerance \<and>
               (fl AND FLAG_AUDIO = 0 \<longrightarrow>
                  dle (fabs (dsub playback_time (dsub video_ts skip))) tolerance)
            then Inr 0 else Inr (- 1)))
   \<and> valof (ddiv (dlit 1 1) (dof_int 25)) = Some (5764607523034235 / 2 ^ 57)
   \<and> (valof x = Some a \<longrightarrow>
        (dle x (ddiv (dlit 1 1) (dof_int 25)) \<longleftrightarrow> a \<le> 5764607523034235 / 2 ^ 57))
   \<and> check_frame (Some \<lparr>ts = dlit 30099 1000, data = [0x20F000]\<rparr>) (dlit 301 10) 0 = Inr 0
   \<and> check_frame (Some \<lparr>ts = dlit 302 10, data = [0x20F000]\<rparr>) (dlit 301 10) 0 = Inr (- 1)
   \<and> check_frame (Some \<lparr>ts = dlit 30099 1000, data = []\<rparr>) (dlit 301 10) FLAG_AUDIO = Inr 0
   \<and> check_frame (Some \<lparr>ts = dlit 302 10, data = []\<rparr>) (dlit 301 10) FLAG_AUDIO = Inr (- 1)
   \<and> check_frame (Some \<lparr>ts = dlit 3722 100, data = [0x30A020]\<rparr>) (dlit 301 10) FLAG_SKIP = Inr 0
   \<and> check_frame (Some \<lparr>ts = dlit 301 10, data = [0x20F000]\<rparr>) (dlit 301 10) FLAG_SKIP
        = Inr (- 1)"
proof -
  have tol: "valof (ddiv (dlit 1 1) (dof_int 25)) = Some (5764607523034235 / 2 ^ 57)"
    by (simp add: tolerance)
  have rd: "valof x = Some a \<longrightarrow>
        (dle x (ddiv (dlit 1 1) (dof_int 25)) \<longleftrightarrow> a \<le> 5764607523034235 / 2 ^ 57)"
    using dle_valof [of x a "ddiv (dlit 1 1) (dof_int 25)" "5764607523034235 / 2 ^ 57"] tol
    by blast
  have v1: "check_frame (Some \<lparr>ts = dlit 30099 1000, data = [0x20F000]\<rparr>) (dlit 301 10) 0 = Inr 0"
    by (simp add: check_eval)
  have v2: "check_frame (Some \<lparr>ts = dlit 302 10, data = [0x20F000]\<rparr>) (dlit 301 10) 0 = Inr (- 1)"
    by (simp add: check_eval)
  have a1: "check_frame (Some \<lparr>ts = dlit 30099 1000, data = []\<rparr>) (dlit 301 10) FLAG_AUDIO = Inr 0"
    by (simp add: check_eval)
  have a2: "check_frame (Some \<lparr>ts = dlit 302 10, data = []\<rparr>) (dlit 301 10) FLAG_AUDIO = Inr (- 1)"
    by (simp add: check_eval)
  have s1: "check_frame (Some \<lparr>ts = dlit 3722 100, data = [0x30A020]\<rparr>) (dlit 301 10) FLAG_SKIP
      = Inr 0"
    by (simp add: check_eval)
  have s2: "check_frame (Some \<lparr>ts = dlit 301 10, data = [0x20F000]\<rparr>) (dlit 301 10) FLAG_SKIP
      = Inr (- 1)"
    by (simp add: check_eval)
  from tolerant_form [of fts t c cs fl] tol rd v1 v2 a1 a2 s1 s2 show ?thesis by blast
qed

theorem check_frame_tolerance_witness:
  "check_frame (Some \<lparr>ts = dlit 1503 100, data = [0x107070]\<rparr>) (dlit 150 10) 0 = Inr 0
   \<and> check_frame (Some \<lparr>ts = dlit 1505 100, data = [0x107070]\<rparr>) (dlit 150 10) 0 = Inr (- 1)
   \<and> check_frame (Some \<lparr>ts = dlit 7125 1000, data = [0xB020]\<rparr>) (dof_int 0) FLAG_SKIP = Inr 0
   \<and> check_frame (Some \<lparr>ts = dlit 7125 1000, data = [0xB030]\<rparr>) (dof_int 0) FLAG_SKIP
        = Inr (- 1)"
  using check_frame_tolerance [of "dlit 1503 100" "dlit 150 10" "0x107070" "[]" 0, THEN conjunct1]
    check_frame_tolerance [of "dlit 1505 100" "dlit 150 10" "0x107070" "[]" 0, THEN conjunct1]
    check_frame_tolerance [of "dlit 7125 1000" "dof_int 0" "0xB020" "[]" FLAG_SKIP, THEN conjunct1]
    check_frame_tolerance [of "dlit 7125 1000" "dof_int 0" "0xB030" "[]" FLAG_SKIP, THEN conjunct1]
  by (simp add: frame_ids flag_simps av_clipd_def DBL_MAX_def ieee_eval)

text \<open>
  C3 as stated fails. At the requested time 1, a frame with timestamp 1 and frame id 24
  is at the exact distances 0 and 1/25 from the playback time, both at most 1/25, and
  is rejected: 24/25 is rounded down to a \<^verbatim>\<open>double\<close>, and the computed difference is
  greater than the \<^verbatim>\<open>double\<close> \<^verbatim>\<open>1./25\<close>. A frame whose timestamp is NaN is accepted
  when its colour fits, although its difference is NaN and not at most the bound.
\<close>

theorem check_frame_boundary:
  "valof (dof_int 1) = Some 1
   \<and> sint (frame_id_of 0x1080) = 24
   \<and> \<bar>(1::real) - (24 / 25 - 0)\<bar> \<le> 1 / 25
   \<and> \<bar>(1::real) - (1 - 0)\<bar> \<le> 1 / 25
   \<and> check_frame (Some \<lparr>ts = dof_int 1, data = [0x1080]\<rparr>) (dof_int 1) 0 = Inr (- 1)
   \<and> check_frame (Some \<lparr>ts = NaN, data = [0x20F000]\<rparr>) (dlit 301 10) 0 = Inr 0
   \<and> \<not> dle (fabs (dsub (dlit 301 10) (dsub NaN (dof_int 0)))) (ddiv (dlit 1 1) (dof_int 25))"
proof -
  have c1: "valof (dof_int 1) = Some 1" by (simp add: ieee_eval)
  have c2: "sint (frame_id_of 0x1080) = 24" by (simp add: frame_ids)
  have c3: "check_frame (Some \<lparr>ts = dof_int 1, data = [0x1080]\<rparr>) (dof_int 1) 0 = Inr (- 1)"
    by (simp add: check_eval)
  have c4: "check_frame (Some \<lparr>ts = NaN, data = [0x20F000]\<rparr>) (dlit 301 10) 0 = Inr 0"
    by (simp add: check_eval)
  have c5: "\<not> dle (fabs (dsub (dlit 301 10) (dsub NaN (dof_int 0)))) (ddiv (dlit 1 1) (dof_int 25))"
    by (simp add: ieee_eval)
  from c1 c2 c3 c4 c5 show ?thesis by simp
qed

text \<open>
  C4. The playback time \<^verbatim>\<open>check_frame\<close> compares with is the requested time clipped to
  the range from 0 to the trim duration, which is 53.43 when the trim flag is set and
  \<open>DBL_MAX\<close> otherwise: the result for a requested time is the result for its clipped
  value, and it is given by the comparisons of the clipped value. With the skew and
  trim flags both set, a request for 60.0 is checked against 53.43, and the frame's raw
  timestamp enters the comparison reduced by the skew 7.12: the timestamps 60.55 and
  60.51 pass on frame 1514, and 67.12, which would fit the unclipped 60.0, fails on
  frame 1678. Without the trim flag, 60.0 is not clipped; a negative request is
  checked against 0.
\<close>

theorem check_frame_clips_time:
  "check_frame (Some f) t fl =
     check_frame (Some f)
       (av_clipd t (dof_int 0)
          (if fl AND FLAG_TRIM_DURATION \<noteq> 0 then dlit 5343 100 else DBL_MAX)) fl
   \<and> check_frame (Some \<lparr>ts = fts, data = c # cs\<rparr>) t fl =
       (let skip = (if fl AND FLAG_SKIP \<noteq> 0 then dlit 712 100 else dof_int 0);
            playback_time =
              av_clipd t (dof_int 0)
                (if fl AND FLAG_TRIM_DURATION \<noteq> 0 then dlit 5343 100 else DBL_MAX);
            video_ts = ddiv (dmul (dof_int (sint (frame_id_of c))) (dlit 1 1)) (dof_int 25);
            tolerance = ddiv (dlit 1 1) (dof_int 25)
        in if fl AND FLAG_AUDIO = 0 \<and>
              dgt (fabs (dsub playback_time (dsub video_ts skip))) tolerance then Inr (- 1)
           else if dgt (fabs (dsub playback_time (dsub fts skip))) tolerance then Inr (- 1)
           else Inr 0)
   \<and> av_clipd (dlit 600 10) (dof_int 0) (dlit 5343 100) = dlit 5343 100
   \<and> check_frame (Some \<lparr>ts = fts, data = c # cs\<rparr>) (dlit 600 10)
         (FLAG_SKIP OR FLAG_TRIM_DURATION) =
       (let video_ts = ddiv (dmul (dof_int (sint (frame_id_of c))) (dlit 1 1)) (dof_int 25);
            tolerance = ddiv (dlit 1 1) (dof_int 25)
        in if dgt (fabs (dsub (dlit 5343 100) (dsub video_ts (dlit 712 100)))) tolerance
           then Inr (- 1)
           else if dgt (fabs (dsub (dlit 5343 100) (dsub fts (dlit 712 100)))) tolerance
           then Inr (- 1)
           else Inr 0)
   \<and> check_frame (Some \<lparr>ts = dlit 6055 100, data = [0x50E0A0]\<rparr>) (dlit 600 10)
         (FLAG_SKIP OR FLAG_TRIM_DURATION) = Inr 0
   \<and> check_frame (Some \<lparr>ts = dlit 6051 100, data = [0x50E0A0]\<rparr>) (dlit 600 10)
         (FLAG_SKIP OR FLAG_TRIM_DURATION) = Inr 0
   \<and> check_frame (Some \<lparr>ts = dlit 6712 100, data = [0x6080E0]\<rparr>) (dlit 600 10)
         (FLAG_SKIP OR FLAG_TRIM_DURATION) = Inr (- 1)
   \<and> check_frame (Some \<lparr>ts = dlit 600 10, data = [0x50D0C0]\<rparr>) (dlit 600 10) 0 = Inr 0
   \<and> check_frame (Some \<lparr>ts = dlit 600 10, data = [0x50D0C0]\<rparr>) (dlit 600 10)
         FLAG_TRIM_DURATION = Inr (- 1)
   \<and> check_frame (Some \<lparr>ts = dlit 5343 100, data = [0x503080]\<rparr>) (dlit 600 10)
         FLAG_TRIM_DURATION = Inr 0
   \<and> check_frame (Some \<lparr>ts = dof_int 0, data = [0]\<rparr>) (dof_int (- 5)) 0 = Inr 0"
proof -
  have fl: "FLAG_SKIP OR FLAG_TRIM_DURATION = (3::u32)" by (simp add: flag_simps)
  have c1: "check_frame (Some f) t fl =
     check_frame (Some f)
       (av_clipd t (dof_int 0)
          (if fl AND FLAG_TRIM_DURATION \<noteq> 0 then dlit 5343 100 else DBL_MAX)) fl"
  proof (cases f)
    case (fields fts d)
    show ?thesis
    proof (cases "fl AND FLAG_AUDIO = 0")
      case audio: False
      show ?thesis
        unfolding fields check_frame_audio [OF audio] Let_def clip_idem by (rule refl)
    next
      case video: True
      show ?thesis
      proof (cases d)
        case Nil
        with video show ?thesis by (simp add: fields check_frame_empty)
      next
        case (Cons c cs)
        show ?thesis
          unfolding fields Cons check_frame_video [OF video] Let_def clip_idem by (rule refl)
      qed
    qed
  qed
  have c3: "av_clipd (dlit 600 10) (dof_int 0) (dlit 5343 100) = dlit 5343 100"
    by (simp add: av_clipd_def ieee_eval)
  have c4: "check_frame (Some \<lparr>ts = fts, data = c # cs\<rparr>) (dlit 600 10) 3 =
       (let video_ts = ddiv (dmul (dof_int (sint (frame_id_of c))) (dlit 1 1)) (dof_int 25);
            tolerance = ddiv (dlit 1 1) (dof_int 25)
        in if dgt (fabs (dsub (dlit 5343 100) (dsub video_ts (dlit 712 100)))) tolerance
           then Inr (- 1)
           else if dgt (fabs (dsub (dlit 5343 100) (dsub fts (dlit 712 100)))) tolerance
           then Inr (- 1)
           else Inr 0)"
    unfolding check_frame_general by (simp add: Let_def flag_simps c3)
  have e1: "check_frame (Some \<lparr>ts = dlit 6055 100, data = [0x50E0A0]\<rparr>) (dlit 600 10) 3 = Inr 0"
    by (simp add: check_eval)
  have e2: "check_frame (Some \<lparr>ts = dlit 6051 100, data = [0x50E0A0]\<rparr>) (dlit 600 10) 3 = Inr 0"
    by (simp add: check_eval)
  have e3: "check_frame (Some \<lparr>ts = dlit 6712 100, data = [0x6080E0]\<rparr>) (dlit 600 10) 3
      = Inr (- 1)"
    by (simp add: check_eval)
  have e4: "check_frame (Some \<lparr>ts = dlit 600 10, data = [0x50D0C0]\<rparr>) (dlit 600 10) 0 = Inr 0"
    by (simp add: check_eval)
  have e5: "check_frame (Some \<lparr>ts = dlit 600 10, data = [0x50D0C0]\<rparr>) (dlit 600 10)
         FLAG_TRIM_DURATION = Inr (- 1)"
    by (simp add: check_eval)
  have e6: "check_frame (Some \<lparr>ts = dlit 5343 100, data = [0x503080]\<rparr>) (dlit 600 10)
         FLAG_TRIM_DURATION = Inr 0"
    by (simp add: check_eval)
  have e7: "check_frame (Some \<lparr>ts = dof_int 0, data = [0]\<rparr>) (dof_int (- 5)) 0 = Inr 0"
    by (simp add: check_eval)
  show ?thesis
    unfolding fl using c1 check_frame_general [of fts c cs t fl] c3 c4 e1 e2 e3 e4 e5 e6 e7
    by blast
qed

theorem check_frame_clips_time_witness:
  "check_frame (Some \<lparr>ts = dlit 6712 100, data = [0x50E0A0]\<rparr>) (dlit 600 10)
       (FLAG_SKIP OR FLAG_TRIM_DURATION)
     = check_frame (Some \<lparr>ts = dlit 6712 100, data = [0x50E0A0]\<rparr>) (dlit 5343 100)
       (FLAG_SKIP OR FLAG_TRIM_DURATION)
   \<and> check_frame (Some \<lparr>ts = dlit 6055 100, data = [0x50E0A0]\<rparr>) (dlit 5343 100)
       (FLAG_SKIP OR FLAG_TRIM_DURATION) = Inr 0
   \<and> check_frame (Some \<lparr>ts = dlit 6712 100, data = [0x50E0A0]\<rparr>) (dlit 5343 100)
       (FLAG_SKIP OR FLAG_TRIM_DURATION) = Inr (- 1)"
  using check_frame_clips_time
      [of "\<lparr>ts = dlit 6712 100, data = [0x50E0A0]\<rparr>" "dlit 600 10"
        "FLAG_SKIP OR FLAG_TRIM_DURATION" "dlit 6712 100" "0x50E0A0" "[]", THEN conjunct1]
    check_frame_clips_time
      [of "\<lparr>ts = dlit 6055 100, data = [0x50E0A0]\<rparr>" "dlit 5343 100"
        "FLAG_SKIP OR FLAG_TRIM_DURATION" "dlit 6055 100" "0x50E0A0" "[]",
        THEN conjunct2, THEN conjunct1]
    check_frame_clips_time
      [of "\<lparr>ts = dlit 6712 100, data = [0x50E0A0]\<rparr>" "dlit 5343 100"
        "FLAG_SKIP OR FLAG_TRIM_DURATION" "dlit 6712 100" "0x50E0A0" "[]",
        THEN conjunct2, THEN conjunct1]
  by (simp add: frame_ids flag_simps av_clipd_def DBL_MAX_def ieee_eval)

text \<open>
  C5. The frame id is \<open>r << 8 | g << 4 | b\<close> for the 4-bit fields found 20, 12 and 4 bits
  up in the first pixel; it is a number from 0 to 4095. Without the audio flag the time
  derived from it, the frame id divided by 25 minus the skew (7.12 with the skip flag),
  must not differ from the playback time by more than \<^verbatim>\<open>1./25\<close>, the check of the colour
  coming before that of the timestamp; with the audio flag the pixel data is not
  looked at and only the timestamp is checked. With the skip flag set and a request
  for 0, frame 178 (time 7.12) passes, and frame 0 and frame 179 fail.
\<close>

theorem check_frame_color:
  "frame_id_of c =
     push_bit 8 (drop_bit 20 c AND 0xf) OR push_bit 4 (drop_bit 12 c AND 0xf) OR (drop_bit 4 c AND 0xf)
   \<and> 0 \<le> sint (frame_id_of c) \<and> sint (frame_id_of c) < 4096
   \<and> (fl AND FLAG_AUDIO = 0 \<longrightarrow>
        check_frame (Some \<lparr>ts = fts, data = c # cs\<rparr>) t fl =
          (let skip = (if fl AND FLAG_SKIP \<noteq> 0 then dlit 712 100 else dof_int 0);
               playback_time =
                 av_clipd t (dof_int 0)
                   (if fl AND FLAG_TRIM_DURATION \<noteq> 0 then dlit 5343 100 else DBL_MAX);
               video_ts = ddiv (dmul (dof_int (sint (frame_id_of c))) (dlit 1 1)) (dof_int 25);
               tolerance = ddiv (dlit 1 1) (dof_int 25)
           in if dgt (fabs (dsub playback_time (dsub video_ts skip))) tolerance then Inr (- 1)
              else if dgt (fabs (dsub playback_time (dsub fts skip))) tolerance then Inr (- 1)
              else Inr 0))
   \<and> (fl AND FLAG_AUDIO \<noteq> 0 \<longrightarrow>
        check_frame (Some \<lparr>ts = fts, data = d\<rparr>) t fl =
          (let skip = (if fl AND FLAG_SKIP \<noteq> 0 then dlit 712 100 else dof_int 0);
               playback_time =
                 av_clipd t (dof_int 0)
                   (if fl AND FLAG_TRIM_DURATION \<noteq> 0 then dlit 5343 100 else DBL_MAX);
               tolerance = ddiv (dlit 1 1) (dof_int 25)
           in if dgt (fabs (dsub playback_time (dsub fts skip))) tolerance then Inr (- 1)
              else Inr 0))
   \<and> ddiv (dmul (dof_int 752) (dlit 1 1)) (dof_int 25) = dlit 3008 100
   \<and> check_frame (Some \<lparr>ts = dlit 712 100, data = [0xB020]\<rparr>) (dof_int 0) FLAG_SKIP = Inr 0
   \<and> check_frame (Some \<lparr>ts = dlit 712 100, data = [0]\<rparr>) (dof_int 0) FLAG_SKIP = Inr (- 1)
   \<and> check_frame (Some \<lparr>ts = dlit 7125 1000, data = [0xB030]\<rparr>) (dof_int 0) FLAG_SKIP
        = Inr (- 1)
   \<and> check_frame (Some \<lparr>ts = dlit 712 100, data = [0]\<rparr>) (dof_int 0) (FLAG_SKIP OR FLAG_AUDIO)
        = Inr 0"
proof -
  have v: "ddiv (dmul (dof_int 752) (dlit 1 1)) (dof_int 25) = dlit 3008 100"
    by (simp add: ieee_eval)
  have e1: "check_frame (Some \<lparr>ts = dlit 712 100, data = [0xB020]\<rparr>) (dof_int 0) FLAG_SKIP = Inr 0"
    by (simp add: check_eval)
  have e2: "check_frame (Some \<lparr>ts = dlit 712 100, data = [0]\<rparr>) (dof_int 0) FLAG_SKIP = Inr (- 1)"
    by (simp add: check_eval)
  have e3: "check_frame (Some \<lparr>ts = dlit 7125 1000, data = [0xB030]\<rparr>) (dof_int 0) FLAG_SKIP
        = Inr (- 1)"
    by (simp add: check_eval)
  have e4: "check_frame (Some \<lparr>ts = dlit 712 100, data = [0]\<rparr>) (dof_int 0)
        (FLAG_SKIP OR FLAG_AUDIO) = Inr 0"
    by (simp add: check_eval)
  show ?thesis
    using frame_id_of_fields [of c] frame_id_of_sint [of c]
      check_frame_video [of fl fts c cs t] check_frame_audio [of fl fts d t] v e1 e2 e3 e4
    by blast
qed

theorem check_frame_color_witness:
  "frame_id_of 0x20F000 = 752
   \<and> check_frame (Some \<lparr>ts = dlit 301 10, data = [0x20F000]\<rparr>) (dlit 301 10) 0 = Inr 0
   \<and> check_frame (Some \<lparr>ts = dlit 301 10, data = [0x30F000]\<rparr>) (dlit 301 10) 0 = Inr (- 1)
   \<and> check_frame (Some \<lparr>ts = dlit 301 10, data = [0x30F000]\<rparr>) (dlit 301 10) FLAG_AUDIO = Inr 0
   \<and> check_frame (Some \<lparr>ts = dlit 3722 100, data = [0x30A020]\<rparr>) (dlit 301 10) FLAG_SKIP = Inr 0"
proof -
  note video = conjunct2 [THEN conjunct2, THEN conjunct2, THEN conjunct1]
  note audio = conjunct2 [THEN conjunct2, THEN conjunct2, THEN conjunct2, THEN conjunct1]
  show ?thesis
    using check_frame_color [of "0x20F000" 0 "dlit 301 10" "[]" "dlit 301 10" "[]", THEN video]
      check_frame_color [of "0x30F000" 0 "dlit 301 10" "[]" "dlit 301 10" "[]", THEN video]
      check_frame_color [of "0x30F000" FLAG_AUDIO "dlit 301 10" "[]" "dlit 301 10" "[0x30F000]",
        THEN audio]
      check_frame_color [of "0x30A020" FLAG_SKIP "dlit 3722 100" "[]" "dlit 301 10" "[]", THEN video]
    by (simp add: frame_ids flag_simps av_clipd_def DBL_MAX_def ieee_eval)
qed

lemma check_frame_stale:
  "check_frame (Some \<lparr>ts = dof_int 0, data = [0]\<rparr>) (dlit 300 10) 0 = Inr (- 1)"
  by (simp add: check_eval)

text \<open>
  C7. A session whose frames all carry timestamp 0: the first check of \<^verbatim>\<open>action_middle\<close>
  fails, and the function returns -1 having acquired six frames and released none of
  them. \<^verbatim>\<open>action_start\<close> likewise returns without releasing its frame when the check
  fails, whereas \<^verbatim>\<open>action_end\<close> releases the unexpected frame before it reports failure.
\<close>

theorem action_middle_leaks:
  "(\<exists>s'. action_middle \<lparr>prefetch_ret = 0, info_ret = 0, info = \<lparr>width = 16, height = 16\<rparr>,
         frames = replicate 6 (Some \<lparr>ts = dof_int 0, data = [0]\<rparr>), calls = []\<rparr> 0 = Inr (- 1, s')
       \<and> acquired_of (calls s') = replicate 6 \<lparr>ts = dof_int 0, data = [0]\<rparr>
       \<and> released_of (calls s') = [])
   \<and> (\<exists>s'. action_start \<lparr>prefetch_ret = 0, info_ret = 0, info = \<lparr>width = 16, height = 16\<rparr>,
         frames = [Some \<lparr>ts = dof_int 9, data = [0]\<rparr>], calls = []\<rparr> 0 = Inr (- 1, s')
       \<and> acquired_of (calls s') = [\<lparr>ts = dof_int 9, data = [0]\<rparr>]
       \<and> released_of (calls s') = [])
   \<and> (\<exists>s'. action_end \<lparr>prefetch_ret = 0, info_ret = 0, info = \<lparr>width = 16, height = 16\<rparr>,
         frames = [Some \<lparr>ts = dof_int 1, data = [0]\<rparr>, Some \<lparr>ts = dof_int 2, data = [0]\<rparr>],
         calls = []\<rparr> 0
           = Inr (- 1, s')
       \<and> acquired_of (calls s') = [\<lparr>ts = dof_int 1, data = [0]\<rparr>, \<lparr>ts = dof_int 2, data = [0]\<rparr>]
       \<and> released_of (calls s') = [\<lparr>ts = dof_int 1, data = [0]\<rparr>, \<lparr>ts = dof_int 2, data = [0]\<rparr>])"
proof -
  have start: "check_frame (Some \<lparr>ts = dof_int 9, data = [0]\<rparr>) (dof_int 0) 0 = Inr (- 1)"
    by (simp add: check_eval)
  show ?thesis
    by (simp add: action_middle_def action_start_def action_end_def sxplayer_get_frame_def
        sxplayer_get_next_frame_def sxplayer_release_frame_def replicate_6 check_frame_stale start)
qed

text \<open>
  C10. \<^verbatim>\<open>action_fetch_info\<close> returns 0 exactly when the information request succeeds
  (a return code that is not negative) and reports a width of 16 and a height of 16; a
  negative return code of the request is passed on unchanged, and any other reported
  size gives -1.
\<close>

theorem action_fetch_info_result:
  "(\<exists>r s'. action_fetch_info s fl = Inr (r, s') \<and>
      (r = 0 \<longleftrightarrow> 0 \<le> info_ret s \<and> width (info s) = 16 \<and> height (info s) = 16) \<and>
      (info_ret s < 0 \<longrightarrow> r = info_ret s) \<and>
      (0 \<le> info_ret s \<and> (width (info s) \<noteq> 16 \<or> height (info s) \<noteq> 16) \<longrightarrow> r = - 1))"
  by (auto simp: action_fetch_info_def sxplayer_get_info_def)

theorem action_fetch_info_result_witness:
  "action_fetch_info \<lparr>prefetch_ret = 0, info_ret = - 7, info = \<lparr>width = 16, height = 16\<rparr>,
       frames = [], calls = []\<rparr> 0
     = Inr (- 7, \<lparr>prefetch_ret = 0, info_ret = - 7, info = \<lparr>width = 16, height = 16\<rparr>,
       frames = [], calls = [Call_get_info]\<rparr>)
   \<and> action_fetch_info \<lparr>prefetch_ret = 0, info_ret = 0, info = \<lparr>width = 16, height = 16\<rparr>,
       frames = [], calls = []\<rparr> 0
     = Inr (0, \<lparr>prefetch_ret = 0, info_ret = 0, info = \<lparr>width = 16, height = 16\<rparr>,
       frames = [], calls = [Call_get_info]\<rparr>)
   \<and> action_fetch_info \<lparr>prefetch_ret = 0, info_ret = 0, info = \<lparr>width = 480, height = 640\<rparr>,
       frames = [], calls = []\<rparr> 0
     = Inr (- 1, \<lparr>prefetch_ret = 0, info_ret = 0, info = \<lparr>width = 480, height = 640\<rparr>,
       frames = [], calls = [Call_get_info]\<rparr>)"
  using action_fetch_info_result
    [of "\<lparr>prefetch_ret = 0, info_ret = - 7, info = \<lparr>width = 16, height = 16\<rparr>,
       frames = [], calls = []\<rparr>" 0]
  by (simp add: action_fetch_info_def sxplayer_get_info_def)

section \<open>Results about the executor\<close>

lemma exec_comb_from_spec:
  "i \<le> NB_ACTIONS \<Longrightarrow>
   exec_comb_from i s comb fl =
     exec_spec s (takeWhile (\<lambda>a. a \<noteq> 0) (map (GET_ACTION comb) [i..<NB_ACTIONS])) fl"
proof (induction i s comb fl rule: exec_comb_from.induct)
  case (1 i s comb fl)
  show ?case
  proof (cases "i < NB_ACTIONS")
    case False
    then show ?thesis by (subst exec_comb_from.simps) simp
  next
    case True
    then have upt: "[i..<NB_ACTIONS] = i # [i + 1..<NB_ACTIONS]"
      by (simp add: upt_conv_Cons)
    show ?thesis
    proof (cases "GET_ACTION comb i = 0")
      case z: True
      with True show ?thesis by (subst exec_comb_from.simps) (simp add: upt)
    next
      case nz: False
      show ?thesis
      proof (cases "actions_desc (GET_ACTION comb i)")
        case None
        with True nz show ?thesis by (subst exec_comb_from.simps) (simp add: upt)
      next
        case (Some p)
        obtain name func where p: "p = (name, func)" by (cases p)
        show ?thesis
        proof (cases "func s fl")
          case (Inl e)
          with True nz Some p show ?thesis by (subst exec_comb_from.simps) (simp add: upt)
        next
          case (Inr q)
          obtain ret s' where q: "q = (ret, s')" by (cases q)
          show ?thesis
          proof (cases "ret < 0")
            case neg: True
            with True nz Some p Inr q show ?thesis
              by (subst exec_comb_from.simps) (simp add: upt)
          next
            case pos: False
            have "exec_comb_from (i + 1) s' comb fl =
                exec_spec s' (takeWhile (\<lambda>a. a \<noteq> 0) (map (GET_ACTION comb) [i + 1..<NB_ACTIONS])) fl"
              using "1.IH" [OF True refl nz Some p [symmetric] Inr q [symmetric] pos] True
              by simp
            with True nz Some p Inr q pos show ?thesis
              by (subst exec_comb_from.simps) (simp add: upt)
          qed
        qed
      qed
    qed
  qed
qed

lemma exec_spec_stops:
  "exec_spec s pre fl = Inr (0, s1) \<Longrightarrow> actions_desc a = Some (nm, func) \<Longrightarrow>
   func s1 fl = Inr (r, s2) \<Longrightarrow> r < 0 \<Longrightarrow>
   exec_spec s (pre @ a # post) fl = Inr (r, s2)"
proof (induction pre arbitrary: s)
  case Nil
  then show ?case by simp
next
  case (Cons b pre)
  then show ?case
    by (auto split: option.splits sum.splits prod.splits if_splits)
qed

lemma exec_spec_nonpos: "exec_spec s acts fl = Inr (r, s') \<Longrightarrow> r \<le> 0"
  by (induction acts arbitrary: s) (auto split: option.splits sum.splits prod.splits if_splits)

text \<open>
  C8. \<^verbatim>\<open>exec_comb\<close> runs the actions of a sequence in the order of their positions,
  position 0 first, each through the callable the table registers for it. The first
  action with a negative result ends the run: that result is returned, with the session
  as that action left it, and no later action is invoked. When no action fails the
  result is 0; a result is never positive.
\<close>

theorem exec_comb_short_circuit:
  "exec_comb s comb fl = exec_spec s (comb_actions comb) fl
   \<and> (comb_actions comb = pre @ a # post \<and> exec_spec s pre fl = Inr (0, s1) \<and>
      actions_desc a = Some (nm, func) \<and> func s1 fl = Inr (r, s2) \<and> r < 0 \<longrightarrow>
        exec_comb s comb fl = Inr (r, s2))
   \<and> (exec_comb s comb fl = Inr (r', s') \<longrightarrow> r' \<le> 0)"
proof -
  have eq: "exec_comb s comb fl = exec_spec s (comb_actions comb) fl"
    by (simp add: exec_comb_def comb_actions_def exec_comb_from_spec)
  show ?thesis
    using eq exec_spec_stops [of s pre fl s1 a nm func r s2 post] exec_spec_nonpos [of s "comb_actions comb" fl r' s']
    by auto
qed

lemma comb_actions_0x21: "comb_actions 0x21 = [1, 2]"
  by (simp add: comb_actions_def GET_ACTION_def NB_ACTIONS_def BITS_PER_ACTION_def upt_conv_Cons)

theorem exec_comb_short_circuit_witness:
  "exec_comb \<lparr>prefetch_ret = - 5, info_ret = 0, info = \<lparr>width = 16, height = 16\<rparr>,
       frames = [], calls = []\<rparr> 0x21 0
     = Inr (- 5, \<lparr>prefetch_ret = - 5, info_ret = 0, info = \<lparr>width = 16, height = 16\<rparr>,
       frames = [], calls = [Call_prefetch]\<rparr>)
   \<and> exec_comb \<lparr>prefetch_ret = 0, info_ret = 0, info = \<lparr>width = 16, height = 16\<rparr>,
       frames = [], calls = []\<rparr> 0x21 0
     = Inr (0, \<lparr>prefetch_ret = 0, info_ret = 0, info = \<lparr>width = 16, height = 16\<rparr>,
       frames = [], calls = [Call_prefetch, Call_get_info]\<rparr>)"
proof -
  let ?s = "\<lparr>prefetch_ret = - 5, info_ret = 0, info = \<lparr>width = 16, height = 16\<rparr>,
       frames = [], calls = []\<rparr>"
  let ?s2 = "\<lparr>prefetch_ret = - 5, info_ret = 0, info = \<lparr>width = 16, height = 16\<rparr>,
       frames = [], calls = [Call_prefetch]\<rparr>"
  let ?t = "\<lparr>prefetch_ret = 0, info_ret = 0, info = \<lparr>width = 16, height = 16\<rparr>,
       frames = [], calls = []\<rparr>"
  have fails: "exec_comb ?s 0x21 0 = Inr (- 5, ?s2)"
    using exec_comb_short_circuit
      [of ?s "0x21" 0 "[]" 1 "[2]" ?s "''prefetch''" action_prefetch "- 5" ?s2]
    by (simp add: comb_actions_0x21 actions_desc_def ACTION_PREFETCH_def
        action_prefetch_def sxplayer_prefetch_def)
  have passes: "exec_comb ?t 0x21 0 =
      Inr (0, \<lparr>prefetch_ret = 0, info_ret = 0, info = \<lparr>width = 16, height = 16\<rparr>,
       frames = [], calls = [Call_prefetch, Call_get_info]\<rparr>)"
    using exec_comb_short_circuit [of ?t "0x21" 0]
    by (simp add: comb_actions_0x21 actions_desc_def ACTION_PREFETCH_def ACTION_FETCH_INFO_def
        action_prefetch_def sxplayer_prefetch_def action_fetch_info_def sxplayer_get_info_def)
  from fails passes show ?thesis by simp
qed

section \<open>The loop of the enumerator on field lists\<close>

text \<open>
  The loop of \<^verbatim>\<open>get_next_comb\<close> reads the fields of its argument one by one and writes
  the fields of its result; the two phases are related to \<open>acopy\<close> and \<open>acarry\<close>, and
  the fields of a packed list are the list itself.
\<close>

lemma loop_copy:
  "i \<le> NB_ACTIONS \<Longrightarrow>
   get_next_comb_loop comb i False ret =
     map_option (\<lambda>bs. ret OR push_bit (i * 4) (pack bs))
       (acopy (map (GET_ACTION comb) [i..<NB_ACTIONS]))"
proof (induction "NB_ACTIONS - i" arbitrary: i ret)
  case 0
  then have "i = NB_ACTIONS" by simp
  then show ?case by (subst get_next_comb_loop.simps) simp
next
  case (Suc n)
  then have lt: "i < NB_ACTIONS" by simp
  then have upt: "[i..<NB_ACTIONS] = i # [i + 1..<NB_ACTIONS]"
    by (simp add: upt_conv_Cons)
  have IH: "get_next_comb_loop comb (Suc i) False r =
     map_option (\<lambda>bs. r OR push_bit (i * 4) (push_bit 4 (pack bs)))
       (acopy (map (GET_ACTION comb) [Suc i..<NB_ACTIONS]))" for r
    using Suc.hyps(1) [of "i + 1" r] Suc.hyps(2) lt by (simp add: add.commute)
  show ?case
    using lt
    by (subst get_next_comb_loop.simps)
       (simp add: upt IH BITS_PER_ACTION_def option.map_comp comp_def or.assoc
          del: push_bit_push_bit)
qed

lemma pack_or1: "pack (or1 bs) = 1 OR pack bs"
  by (cases bs) (simp_all add: ac_simps)

lemma word_inc_eq_6: "(a::u64) + 1 = 6 \<longleftrightarrow> a = 5"
proof
  assume "a + 1 = 6"
  then have "a + 1 = 5 + 1" by simp
  then show "a = 5" by (simp only: add_right_cancel)
qed simp

lemma loop_carry:
  "i \<le> NB_ACTIONS \<Longrightarrow>
   get_next_comb_loop comb i True ret =
     map_option (\<lambda>bs. ret OR push_bit (i * 4) (pack bs))
       (acarry (map (GET_ACTION comb) [i..<NB_ACTIONS]))"
proof (induction "NB_ACTIONS - i" arbitrary: i ret)
  case 0
  then have "i = NB_ACTIONS" by simp
  then show ?case by (subst get_next_comb_loop.simps) simp
next
  case (Suc n)
  then have lt: "i < NB_ACTIONS" by simp
  then have upt: "[i..<NB_ACTIONS] = i # [i + 1..<NB_ACTIONS]"
    by (simp add: upt_conv_Cons)
  have six: "(of_nat NB_ACTIONS :: u64) = 6" by (simp add: NB_ACTIONS_def)
  have IH: "get_next_comb_loop comb (Suc i) True r =
     map_option (\<lambda>bs. r OR push_bit (i * 4) (push_bit 4 (pack bs)))
       (acarry (map (GET_ACTION comb) [Suc i..<NB_ACTIONS]))" for r
    using Suc.hyps(1) [of "i + 1" r] Suc.hyps(2) lt by (simp add: add.commute)
  have CP: "get_next_comb_loop comb (Suc i) False r =
     map_option (\<lambda>bs. r OR push_bit (i * 4) (push_bit 4 (pack bs)))
       (acopy (map (GET_ACTION comb) [Suc i..<NB_ACTIONS]))" for r
    using loop_copy [of "Suc i" comb r] lt by (simp add: add.commute)
  have sixteen: "push_bit (i * 4) (16::u64) OR push_bit (i * 4) (push_bit 4 p) =
      push_bit (i * 4) (push_bit 4 (1 OR p))" for p
    by (simp del: push_bit_push_bit)
  show ?case
  proof (cases "GET_ACTION comb i = 5")
    case True
    with lt show ?thesis
      by (subst get_next_comb_loop.simps)
         (simp add: upt IH six BITS_PER_ACTION_def option.map_comp comp_def or.assoc
            del: push_bit_push_bit)
  next
    case n5: False
    show ?thesis
    proof (cases "GET_ACTION comb i = 15")
      case True
      with lt show ?thesis
        by (subst get_next_comb_loop.simps)
           (simp add: upt CP six BITS_PER_ACTION_def option.map_comp comp_def or.assoc
              pack_or1 sixteen del: push_bit_push_bit push_bit_or)
    next
      case False
      with lt n5 show ?thesis
        by (subst get_next_comb_loop.simps)
           (simp add: upt CP six BITS_PER_ACTION_def option.map_comp comp_def or.assoc
              word_inc_eq_6 del: push_bit_push_bit)
    qed
  qed
qed

lemma loop_pack:
  "get_next_comb_loop comb 0 True 0 = map_option pack (acarry (nibs comb))"
  using loop_carry [of 0 comb 0] by (simp add: nibs_def option.map_ident cong: option.map_cong)

lemma nib_iff: "(a::u64) < 16 \<longleftrightarrow> take_bit 4 a = a"
proof
  assume "a < 16"
  then have "a < 2 ^ 4" by simp
  then have "a AND mask 4 = a" by (rule less_mask_eq)
  then show "take_bit 4 a = a" by (simp add: take_bit_eq_mask)
next
  assume "take_bit 4 a = a"
  then have "a = a AND mask 4" by (simp add: take_bit_eq_mask)
  moreover have "a AND mask 4 < 2 ^ 4" by (rule and_mask_less_size) (simp add: word_size)
  ultimately show "a < 16" by simp
qed

lemma GET_ACTION_take_bit: "GET_ACTION c i = take_bit 4 (drop_bit (i * 4) c)"
  by (simp add: GET_ACTION_def BITS_PER_ACTION_def take_bit_eq_mask mask_eq_exp_minus_1)

lemma GET_ACTION_nib: "GET_ACTION c i < 16"
  by (simp add: nib_iff GET_ACTION_take_bit)

lemma GET_ACTION_pack_0:
  "take_bit 4 b = b \<Longrightarrow> GET_ACTION (b OR push_bit 4 p) 0 = b"
  by (simp add: GET_ACTION_take_bit take_bit_push_bit)

lemma GET_ACTION_pack_Suc:
  assumes "take_bit 4 b = b" "k < 15"
  shows "GET_ACTION (b OR push_bit 4 p) (Suc k) = GET_ACTION p k"
proof -
  have b: "\<not> bit b n" if "4 \<le> n" for n
  proof -
    have "bit b n = bit (take_bit 4 b) n" using assms(1) by simp
    also have "\<dots> = False" using that by (simp add: bit_take_bit_iff)
    finally show ?thesis by simp
  qed
  show ?thesis
    unfolding GET_ACTION_take_bit
    by (rule bit_eqI) (use assms(2) b in \<open>auto simp: bit_simps\<close>)
qed

lemma GET_ACTION_pack:
  "\<forall>b\<in>set bs. b < 16 \<Longrightarrow> j < 16 \<Longrightarrow>
   GET_ACTION (pack bs) j = (if j < length bs then bs ! j else 0)"
proof (induction bs arbitrary: j)
  case Nil
  then show ?case by (simp add: GET_ACTION_take_bit)
next
  case (Cons b bs)
  then have b: "take_bit 4 b = b" by (simp add: nib_iff)
  show ?case
  proof (cases j)
    case 0
    then show ?thesis using b by (simp add: GET_ACTION_pack_0)
  next
    case (Suc k)
    with Cons.prems have "k < 15" by simp
    then show ?thesis using Suc b Cons by (simp add: GET_ACTION_pack_Suc)
  qed
qed

lemma nibs_pack:
  assumes "\<forall>b\<in>set bs. b < 16" "length bs \<le> NB_ACTIONS"
  shows "nibs (pack bs) = bs @ replicate (NB_ACTIONS - length bs) 0"
proof (rule nth_equalityI)
  show "length (nibs (pack bs)) = length (bs @ replicate (NB_ACTIONS - length bs) 0)"
    using assms(2) by (simp add: nibs_def)
next
  fix i assume "i < length (nibs (pack bs))"
  then have i: "i < NB_ACTIONS" by (simp add: nibs_def)
  then have "i < 16" by (simp add: NB_ACTIONS_def)
  then show "nibs (pack bs) ! i = (bs @ replicate (NB_ACTIONS - length bs) 0) ! i"
    using i assms by (simp add: nibs_def GET_ACTION_pack nth_append)
qed

lemma nibs_small: "\<forall>a\<in>set (nibs c). a < 16"
  by (simp add: nibs_def GET_ACTION_nib)

lemma length_nibs: "length (nibs c) = NB_ACTIONS"
  by (simp add: nibs_def)

section \<open>The enumerator terminates on every input\<close>

text \<open>
  Each candidate the loop builds is smaller than its argument in a lexicographic
  measure: a field of 15 that is incremented disappears from the fields above 5;
  otherwise no field above 5 is added, and the leading run of nonzero fields gets
  longer or keeps its length and gets a larger value. This holds for arbitrary field
  values, not only for action ids.
\<close>

lemma nib_cases:
  assumes "(a::u64) < 16"
  shows "a \<in> {0, 1, 2, 3, 4, 5, 6, 7, 8, 9, 10, 11, 12, 13, 14, 15}"
proof -
  have "unat a < 16" using assms by (simp add: word_less_nat_alt)
  then have "unat a \<in> {0, 1, 2, 3, 4, 5, 6, 7, 8, 9, 10, 11, 12, 13, 14, 15}" by auto arith
  then obtain n where n: "unat a = n" "n \<in> {0, 1, 2, 3, 4, 5, 6, 7, 8, 9, 10, 11, 12, 13, 14, 15}"
    by blast
  have "of_nat (unat a) = a" by simp
  then have "a = of_nat n" using n(1) by simp
  with n(2) show ?thesis by auto
qed

lemma nib_inc_small: "(a::u64) < 16 \<Longrightarrow> a \<noteq> 15 \<Longrightarrow> a + 1 < 16"
  by (drule nib_cases) (auto simp: word_le_nat_alt word_less_nat_alt)

lemma nib_inc_big_iff: "(a::u64) < 16 \<Longrightarrow> a \<noteq> 15 \<Longrightarrow> a \<noteq> 5 \<Longrightarrow> 6 \<le> a + 1 \<longleftrightarrow> 6 \<le> a"
  by (drule nib_cases) (auto simp: word_le_nat_alt word_less_nat_alt)

lemma nib_inc_unat: "(a::u64) < 16 \<Longrightarrow> a + 1 \<noteq> 0 \<and> unat (a + 1) = unat a + 1"
  by (drule nib_cases) (auto simp: word_le_nat_alt word_less_nat_alt)

lemma nib_or1_small: "(c::u64) < 16 \<Longrightarrow> c OR 1 < 16"
  by (simp add: nib_iff)

lemma nib_or1_big_iff: "(c::u64) < 16 \<Longrightarrow> 6 \<le> (c OR 1) \<longleftrightarrow> 6 \<le> c"
  by (drule nib_cases) (auto simp: word_le_nat_alt word_less_nat_alt)

lemma nib_unat_small: "(a::u64) < 16 \<Longrightarrow> unat a < 16"
  by (simp add: word_less_nat_alt)

lemma acopy_Some:
  "acopy xs = Some bs \<Longrightarrow> bs = takeWhile (\<lambda>a. a \<noteq> 0) xs \<and> length bs < length xs"
  by (induction xs arbitrary: bs) (auto split: if_splits)

lemma nbig_takeWhile: "nbig (takeWhile P xs) \<le> nbig xs"
  by (induction xs) (auto simp: nbig_def)

lemma not_6_le_1: "\<not> (6::u64) \<le> 1"
  by (simp add: word_le_nat_alt)

lemma length_or1: "length (or1 bs) \<le> Suc (length bs)"
  by (cases bs) auto

lemma nbig_or1: "\<forall>b\<in>set bs. b < 16 \<Longrightarrow> nbig (or1 bs) = nbig bs"
  by (cases bs) (auto simp: nbig_def nib_or1_big_iff not_6_le_1)

lemma or1_small: "\<forall>b\<in>set bs. b < 16 \<Longrightarrow> \<forall>b\<in>set (or1 bs). b < 16"
  by (cases bs) (auto simp: nib_or1_small)

lemma set_takeWhile_small: "\<forall>a\<in>set xs. a < (16::u64) \<Longrightarrow> \<forall>a\<in>set (takeWhile P xs). a < 16"
  by (meson set_takeWhileD)

lemma acarry_props:
  assumes "\<forall>a\<in>set xs. a < 16" "acarry xs = Some bs"
  shows "(\<forall>b\<in>set bs. b < 16) \<and> length bs \<le> length xs \<and>
         (nbig bs < nbig xs \<or>
          (nbig bs \<le> nbig xs \<and>
            (alen xs < alen bs \<or> (alen xs = alen bs \<and> aval xs < aval bs))))"
  using assms
proof (induction xs arbitrary: bs)
  case Nil
  then show ?case by simp
next
  case (Cons a as)
  have a: "a < 16" and as: "\<forall>a\<in>set as. a < 16" using Cons.prems(1) by simp_all
  show ?case
  proof (cases "a = 5")
    case True
    with Cons.prems(2) obtain bs' where bs': "acarry as = Some bs'" "bs = 1 # bs'"
      by auto
    from Cons.IH [OF as bs'(1)] show ?thesis
      unfolding bs'(2) True
      by (auto simp: nbig_def alen_def aval_def word_le_nat_alt)
  next
    case n5: False
    show ?thesis
    proof (cases "a = 15")
      case True
      with n5 Cons.prems(2) obtain bs' where bs': "acopy as = Some bs'" "bs = 0 # or1 bs'"
        by auto
      have eq: "bs' = takeWhile (\<lambda>a. a \<noteq> 0) as" and len: "length bs' < length as"
        using acopy_Some [OF bs'(1)] by blast+
      have small: "\<forall>b\<in>set bs'. b < 16" unfolding eq using as by (rule set_takeWhile_small)
      have l1: "length (or1 bs') \<le> length as" using len length_or1 [of bs'] by linarith
      have "nbig (or1 bs') \<le> nbig as"
        using nbig_or1 [OF small] nbig_takeWhile [of "\<lambda>a. a \<noteq> 0" as] eq by simp
      then have "nbig bs < nbig (a # as)"
        unfolding bs'(2) True by (simp add: nbig_def word_le_nat_alt)
      then show ?thesis using or1_small [OF small] l1 unfolding bs'(2) by simp
    next
      case n15: False
      with n5 Cons.prems(2) obtain bs' where bs': "acopy as = Some bs'" "bs = (a + 1) # bs'"
        by auto
      have eq: "bs' = takeWhile (\<lambda>a. a \<noteq> 0) as" and len: "length bs' < length as"
        using acopy_Some [OF bs'(1)] by blast+
      have small: "\<forall>b\<in>set bs'. b < 16" unfolding eq using as by (rule set_takeWhile_small)
      have nb: "nbig bs \<le> nbig (a # as)"
        using nbig_takeWhile [of "\<lambda>a. a \<noteq> 0" as] eq nib_inc_big_iff [OF a n15 n5]
        unfolding bs'(2) by (simp add: nbig_def)
      have key: "alen (a # as) < alen bs \<or> (alen (a # as) = alen bs \<and> aval (a # as) < aval bs)"
        unfolding bs'(2) eq using nib_inc_unat [OF a]
        by (simp add: alen_def aval_def takeWhile_idem)
      show ?thesis using nb key small nib_inc_small [OF a n15] len unfolding bs'(2) by simp
    qed
  qed
qed

lemma val_bound: "\<forall>a\<in>set xs. a < 16 \<Longrightarrow> val xs < 16 ^ length xs"
proof (induction xs)
  case Nil
  then show ?case by simp
next
  case (Cons a xs)
  then have "unat a < 16" "val xs < 16 ^ length xs" by (simp_all add: nib_unat_small)
  then have "unat a + 16 * val xs < 16 + 16 * (16 ^ length xs - 1)" by simp
  also have "\<dots> = 16 * 16 ^ length xs" by (simp add: algebra_simps)
  finally show ?case by simp
qed

lemma alen_le: "alen xs \<le> length xs"
  by (simp add: alen_def length_takeWhile_le)

lemma aval_bound:
  assumes "\<forall>a\<in>set xs. a < 16" "length xs \<le> NB_ACTIONS"
  shows "aval xs < 16 ^ NB_ACTIONS"
proof -
  have "aval xs < 16 ^ alen xs"
    unfolding aval_def alen_def using assms(1) by (intro val_bound set_takeWhile_small)
  also have "\<dots> \<le> 16 ^ NB_ACTIONS"
    using alen_le [of xs] assms(2) by (intro power_increasing) simp_all
  finally show ?thesis .
qed

lemma takeWhile_zeros:
  "takeWhile (\<lambda>a. a \<noteq> (0::u64)) (bs @ replicate k 0) = takeWhile (\<lambda>a. a \<noteq> 0) bs"
  by (induction bs) (simp_all add: takeWhile_replicate)

lemma measure_zeros:
  "nbig (bs @ replicate k 0) = nbig bs"
  "alen (bs @ replicate k 0) = alen bs"
  "aval (bs @ replicate k 0) = aval bs"
  by (simp_all add: nbig_def alen_def aval_def takeWhile_zeros word_le_nat_alt)

lemma get_next_comb_decreases:
  assumes "get_next_comb_loop comb 0 True 0 = Some ret"
  shows "(ret, comb) \<in> measures
           [\<lambda>c. nbig (nibs c), \<lambda>c. NB_ACTIONS - alen (nibs c), \<lambda>c. 16 ^ NB_ACTIONS - aval (nibs c)]"
proof -
  from assms obtain bs where bs: "acarry (nibs comb) = Some bs" "ret = pack bs"
    by (auto simp: loop_pack)
  from acarry_props [OF nibs_small bs(1)]
  have small: "\<forall>b\<in>set bs. b < 16" and len: "length bs \<le> NB_ACTIONS"
    and dec: "nbig bs < nbig (nibs comb) \<or>
          (nbig bs \<le> nbig (nibs comb) \<and>
            (alen (nibs comb) < alen bs \<or>
              (alen (nibs comb) = alen bs \<and> aval (nibs comb) < aval bs)))"
    by (simp_all add: length_nibs)
  have nr: "nibs ret = bs @ replicate (NB_ACTIONS - length bs) 0"
    unfolding bs(2) using small len by (rule nibs_pack)
  have b1: "alen bs \<le> NB_ACTIONS" using alen_le [of bs] len by simp
  have b2: "aval bs < 16 ^ NB_ACTIONS" using small len by (rule aval_bound)
  show ?thesis
    using dec b1 b2 by (auto simp: nr measure_zeros)
qed

lemma get_next_comb_total: "All get_next_comb_dom"
proof (relation "measures
           [\<lambda>c. nbig (nibs c), \<lambda>c. NB_ACTIONS - alen (nibs c), \<lambda>c. 16 ^ NB_ACTIONS - aval (nibs c)]",
       goal_cases)
  case 1
  show ?case by simp
next
  case (2 comb ret)
  then show ?case by (intro get_next_comb_decreases) simp
qed

termination get_next_comb
  by (rule get_next_comb_total)

section \<open>Duplicates\<close>

text \<open>\<^verbatim>\<open>has_dup\<close> holds exactly when an action id occurs twice in the sequence.\<close>

lemma has_dup_from_adup:
  "i \<le> NB_ACTIONS \<Longrightarrow>
   has_dup_from i comb actions = adup (map (GET_ACTION comb) [i..<NB_ACTIONS]) actions"
proof (induction "NB_ACTIONS - i" arbitrary: i actions)
  case 0
  then show ?case by (subst has_dup_from.simps) simp
next
  case (Suc n)
  then have lt: "i < NB_ACTIONS" by simp
  then have upt: "[i..<NB_ACTIONS] = i # [Suc i..<NB_ACTIONS]"
    by (simp add: upt_conv_Cons)
  have IH: "has_dup_from (Suc i) comb m = adup (map (GET_ACTION comb) [Suc i..<NB_ACTIONS]) m" for m
    using Suc.hyps(1) [of "Suc i" m] Suc.hyps(2) lt by simp
  show ?case
    using lt by (subst has_dup_from.simps) (simp add: upt IH Let_def)
qed

lemma mask_test: "(m::u64) AND push_bit k 1 \<noteq> 0 \<longleftrightarrow> bit m k"
  by (simp add: and_exp_eq_0_iff_not_bit)

lemma mask_set: "k < 64 \<Longrightarrow> bit ((m::u64) OR push_bit k 1) j \<longleftrightarrow> bit m j \<or> j = k"
  by (auto simp: bit_simps)

lemma adup_iff:
  "\<forall>a\<in>set xs. a < 16 \<Longrightarrow>
   adup xs m \<longleftrightarrow>
     (\<not> distinct (takeWhile (\<lambda>a. a \<noteq> 0) xs) \<or>
      (\<exists>a\<in>set (takeWhile (\<lambda>a. a \<noteq> 0) xs). bit m (unat a)))"
proof (induction xs arbitrary: m)
  case Nil
  then show ?case by simp
next
  case (Cons a as)
  then have a: "unat a < 64" using nib_unat_small [of a] by simp
  have IH: "adup as m' \<longleftrightarrow>
     (\<not> distinct (takeWhile (\<lambda>a. a \<noteq> 0) as) \<or>
      (\<exists>a\<in>set (takeWhile (\<lambda>a. a \<noteq> 0) as). bit m' (unat a)))" for m'
    using Cons by simp
  show ?case
    by (auto simp: IH mask_test mask_set [OF a] word_unat_eq_iff [symmetric] simp del: push_bit_of_1)
qed

lemma has_dup_iff: "has_dup c \<longleftrightarrow> \<not> distinct (comb_actions c)"
proof -
  have "has_dup c = adup (nibs c) 0"
    by (simp add: has_dup_def has_dup_from_adup nibs_def)
  also have "\<dots> \<longleftrightarrow> \<not> distinct (takeWhile (\<lambda>a. a \<noteq> 0) (nibs c))"
    using adup_iff [OF nibs_small, of c 0] by simp
  finally show ?thesis by (simp add: comb_actions_def nibs_def)
qed

section \<open>Results about the enumerator\<close>

declare get_next_comb.simps [simp del]

lemma get_next_comb_result: "get_next_comb comb = EOA \<or> \<not> has_dup (get_next_comb comb)"
proof (induction comb rule: get_next_comb.induct)
  case (1 comb)
  show ?case
  proof (cases "get_next_comb_loop comb 0 True 0")
    case None
    then show ?thesis by (subst get_next_comb.simps) simp
  next
    case (Some ret)
    show ?thesis
    proof (cases "has_dup ret")
      case True
      have "get_next_comb comb = get_next_comb ret"
        using Some True by (subst get_next_comb.simps) simp
      with "1.IH" [OF Some True] show ?thesis by simp
    next
      case False
      have "get_next_comb comb = ret"
        using Some False by (subst get_next_comb.simps) simp
      with False show ?thesis by simp
    qed
  qed
qed

text \<open>
  C2. Whatever \<^verbatim>\<open>get_next_comb\<close> returns, on any input and so in particular on every
  value reached by iterating it from the empty sequence, is either the terminator or a
  packed sequence in which no action id occurs twice: \<^verbatim>\<open>has_dup\<close> is false on it, and
  the list of its actions is distinct.
\<close>

theorem get_next_comb_no_dup:
  "get_next_comb comb \<noteq> EOA \<longrightarrow>
     \<not> has_dup (get_next_comb comb) \<and> distinct (comb_actions (get_next_comb comb))"
  using get_next_comb_result [of comb] by (auto simp: has_dup_iff)

lemma loop_from_empty: "get_next_comb_loop 0 0 True 0 = Some 1"
  by (simp add: get_next_comb_loop.simps GET_ACTION_def NB_ACTIONS_def BITS_PER_ACTION_def)

lemma has_dup_1: "\<not> has_dup 1"
  by (simp add: has_dup_def has_dup_from.simps GET_ACTION_def NB_ACTIONS_def BITS_PER_ACTION_def)

lemma get_next_comb_empty: "get_next_comb 0 = 1"
  by (subst get_next_comb.simps) (simp add: loop_from_empty has_dup_1)

lemma comb_actions_1: "comb_actions 1 = [1]"
  by (simp add: comb_actions_def GET_ACTION_def NB_ACTIONS_def BITS_PER_ACTION_def upt_conv_Cons)

theorem get_next_comb_no_dup_witness:
  "get_next_comb 0 = 1 \<and> (1::u64) \<noteq> EOA \<and> \<not> has_dup 1 \<and> distinct (comb_actions 1)"
  using get_next_comb_no_dup [of 0] by (simp add: get_next_comb_empty EOA_def)

section \<open>The enumerator on sequences of action ids\<close>

text \<open>
  On a packed sequence of action ids the loop is the odometer increment. The rank
  counts increments from the empty sequence, it determines the sequence, and longer
  sequences have larger ranks. So \<^verbatim>\<open>get_next_comb\<close> returns the duplicate-free sequence
  of least rank above its argument, or \<open>EOA\<close> when there is none.
\<close>

lemma action_ids_eq: "action_ids = {1, 2, 3, 4, 5}"
  by (simp add: action_ids_def ACTION_PREFETCH_def ACTION_FETCH_INFO_def ACTION_START_def
      ACTION_MIDDLE_def ACTION_END_def)

lemma action_id_cases: "a \<in> action_ids \<Longrightarrow> a = 1 \<or> a = 2 \<or> a = 3 \<or> a = 4 \<or> a = 5"
  by (simp add: action_ids_eq)

lemma action_id_small: "a \<in> action_ids \<Longrightarrow> a < 16 \<and> a \<noteq> 0 \<and> a \<noteq> 15"
  by (auto dest!: action_id_cases simp: word_less_nat_alt)

lemma action_id_inc: "a \<in> action_ids \<Longrightarrow> a \<noteq> 5 \<Longrightarrow> a + 1 \<in> action_ids \<and> unat (a + 1) = unat a + 1"
  by (auto dest!: action_id_cases simp: action_ids_eq)

lemma action_id_unat: "a \<in> action_ids \<Longrightarrow> 1 \<le> unat a \<and> unat a \<le> 5"
  by (auto dest!: action_id_cases)

lemma acopy_valid:
  "\<forall>a\<in>set xs. a \<noteq> 0 \<Longrightarrow> acopy (xs @ replicate k 0) = (if 0 < k then Some xs else None)"
  by (induction xs) (cases k; simp)+

lemma acarry_valid:
  "set xs \<subseteq> action_ids \<Longrightarrow>
   acarry (xs @ replicate k 0) =
     (if length (odo_inc xs) < length xs + k then Some (odo_inc xs) else None)"
proof (induction xs)
  case Nil
  show ?case
  proof (cases k)
    case 0
    then show ?thesis by simp
  next
    case (Suc k')
    then show ?thesis using acopy_valid [of "[]" k'] by simp
  qed
next
  case (Cons a as)
  then have a: "a \<in> action_ids" and as: "set as \<subseteq> action_ids" by simp_all
  have nz: "\<forall>a\<in>set as. a \<noteq> 0" using as action_id_small by blast
  show ?case
  proof (cases "a = 5")
    case True
    then show ?thesis using Cons.IH [OF as] by simp
  next
    case False
    then show ?thesis
      using action_id_small [OF a] acopy_valid [OF nz, of k] by simp
  qed
qed

lemma odo_inc_valid: "set xs \<subseteq> action_ids \<Longrightarrow> set (odo_inc xs) \<subseteq> action_ids"
  by (induction xs) (auto simp: action_id_inc, simp_all add: action_ids_eq)

lemma length_odo_inc: "length xs \<le> length (odo_inc xs) \<and> length (odo_inc xs) \<le> Suc (length xs)"
  by (induction xs) auto

lemma rank_odo_inc: "set xs \<subseteq> action_ids \<Longrightarrow> rank (odo_inc xs) = Suc (rank xs)"
  by (induction xs) (auto simp: action_id_inc)

lemma rank_bounds:
  "set xs \<subseteq> action_ids \<Longrightarrow>
   first_rank (length xs) \<le> rank xs \<and> rank xs < first_rank (Suc (length xs))"
proof (induction xs)
  case Nil
  then show ?case by simp
next
  case (Cons a as)
  then have "1 \<le> unat a \<and> unat a \<le> 5" using action_id_unat [of a] by simp
  moreover have "first_rank (length as) \<le> rank as \<and> rank as < first_rank (Suc (length as))"
    using Cons by simp
  ultimately show ?case by simp
qed

lemma first_rank_mono: "m \<le> n \<Longrightarrow> first_rank m \<le> first_rank n"
  by (induction n) (auto simp: le_Suc_eq)

lemma rank_length_mono:
  assumes "set xs \<subseteq> action_ids" "set ys \<subseteq> action_ids" "rank xs \<le> rank ys"
  shows "length xs \<le> length ys"
proof (rule ccontr)
  assume "\<not> length xs \<le> length ys"
  then have "Suc (length ys) \<le> length xs" by simp
  then have "first_rank (Suc (length ys)) \<le> first_rank (length xs)" by (rule first_rank_mono)
  with rank_bounds [OF assms(1)] rank_bounds [OF assms(2)] assms(3) show False by linarith
qed

lemma rank_inj:
  "set xs \<subseteq> action_ids \<Longrightarrow> set ys \<subseteq> action_ids \<Longrightarrow> rank xs = rank ys \<Longrightarrow> xs = ys"
proof (induction xs arbitrary: ys)
  case Nil
  show ?case
  proof (cases ys)
    case Nil
    then show ?thesis by simp
  next
    case (Cons b bs)
    with Nil.prems action_id_unat [of b] show ?thesis by simp
  qed
next
  case (Cons a as)
  have a: "1 \<le> unat a \<and> unat a \<le> 5" using Cons.prems(1) action_id_unat [of a] by simp
  show ?case
  proof (cases ys)
    case Nil
    with Cons.prems a show ?thesis by simp
  next
    case (Cons b bs)
    have b: "1 \<le> unat b \<and> unat b \<le> 5" using Cons.prems(2) Cons action_id_unat [of b] by simp
    have eq: "unat a + 5 * rank as = unat b + 5 * rank bs" using Cons.prems(3) Cons by simp
    have "unat a = unat b \<and> rank as = rank bs" using a b eq by presburger
    then have "a = b" "as = bs"
      using Cons.IH [of bs] Cons.prems(1,2) Cons by (simp_all add: word_unat_eq_iff)
    then show ?thesis using Cons by simp
  qed
qed

lemma valid_small: "set xs \<subseteq> action_ids \<Longrightarrow> \<forall>a\<in>set xs. a < 16"
  using action_id_small by blast

lemma valid_nonzero: "set xs \<subseteq> action_ids \<Longrightarrow> \<forall>a\<in>set xs. a \<noteq> 0"
  using action_id_small by blast

lemma nibs_pack_valid:
  "set xs \<subseteq> action_ids \<Longrightarrow> length xs \<le> NB_ACTIONS \<Longrightarrow>
   nibs (pack xs) = xs @ replicate (NB_ACTIONS - length xs) 0"
  by (rule nibs_pack) (simp_all add: valid_small)

lemma comb_actions_pack:
  assumes "set xs \<subseteq> action_ids" "length xs \<le> NB_ACTIONS"
  shows "comb_actions (pack xs) = xs"
proof -
  have "comb_actions (pack xs) = takeWhile (\<lambda>a. a \<noteq> 0) (nibs (pack xs))"
    by (simp add: comb_actions_def nibs_def)
  also have "\<dots> = takeWhile (\<lambda>a. a \<noteq> 0) xs"
    by (simp add: nibs_pack_valid [OF assms] takeWhile_zeros)
  also have "\<dots> = xs" using valid_nonzero [OF assms(1)] by (simp add: takeWhile_eq_all_conv)
  finally show ?thesis .
qed

lemma loop_valid:
  assumes "set xs \<subseteq> action_ids" "length xs \<le> NB_ACTIONS"
  shows "get_next_comb_loop (pack xs) 0 True 0 =
           (if length (odo_inc xs) < NB_ACTIONS then Some (pack (odo_inc xs)) else None)"
  using assms(2)
  by (simp add: loop_pack nibs_pack_valid [OF assms] acarry_valid [OF assms(1)])

lemma get_next_comb_valid:
  assumes "set xs \<subseteq> action_ids" "length xs < NB_ACTIONS"
  shows "get_next_comb (pack xs) =
           (if NB_ACTIONS \<le> length (odo_inc xs) then EOA
            else if distinct (odo_inc xs) then pack (odo_inc xs)
            else get_next_comb (pack (odo_inc xs)))"
proof (cases "length (odo_inc xs) < NB_ACTIONS")
  case False
  then show ?thesis
    using assms by (subst get_next_comb.simps) (simp add: loop_valid)
next
  case True
  have "comb_actions (pack (odo_inc xs)) = odo_inc xs"
    using True odo_inc_valid [OF assms(1)] by (intro comb_actions_pack) simp_all
  then show ?thesis
    using True assms by (subst get_next_comb.simps) (simp add: loop_valid has_dup_iff)
qed

lemma pack_nonzero:
  assumes "set xs \<subseteq> action_ids" "length xs \<le> NB_ACTIONS" "xs \<noteq> []"
  shows "pack xs \<noteq> EOA"
proof
  assume "pack xs = EOA"
  then have "comb_actions (pack xs) = comb_actions 0" by (simp add: EOA_def)
  also have "\<dots> = []"
    by (simp add: comb_actions_def GET_ACTION_def NB_ACTIONS_def upt_conv_Cons)
  finally show False using comb_actions_pack [OF assms(1,2)] assms(3) by simp
qed

lemma next_spec:
  assumes "set xs \<subseteq> action_ids" "length xs < NB_ACTIONS"
  shows "(get_next_comb (pack xs) = EOA \<and> later_seqs xs = {}) \<or>
         (\<exists>ys. get_next_comb (pack xs) = pack ys \<and> ys \<in> later_seqs xs \<and>
               later_seqs xs = insert ys (later_seqs ys))"
  using assms
proof (induction "first_rank NB_ACTIONS - rank xs" arbitrary: xs rule: less_induct)
  case less
  let ?ys = "odo_inc xs"
  have vy: "set ?ys \<subseteq> action_ids" using less.prems(1) by (rule odo_inc_valid)
  have ry: "rank ?ys = Suc (rank xs)" using less.prems(1) by (rule rank_odo_inc)
  have above: "rank ?ys \<le> rank zs" if "zs \<in> later_seqs xs" for zs
    using that ry by (simp add: later_seqs_def)
  show ?case
  proof (cases "NB_ACTIONS \<le> length ?ys")
    case True
    have "later_seqs xs = {}"
    proof (rule ccontr)
      assume "later_seqs xs \<noteq> {}"
      then obtain zs where zs: "zs \<in> later_seqs xs" by blast
      then have "length ?ys \<le> length zs"
        using above [OF zs] vy by (intro rank_length_mono) (simp_all add: later_seqs_def)
      with True zs show False by (simp add: later_seqs_def)
    qed
    then show ?thesis
      using True less.prems by (simp add: get_next_comb_valid)
  next
    case False
    then have ly: "length ?ys < NB_ACTIONS" by simp
    show ?thesis
    proof (cases "distinct ?ys")
      case True
      have mem: "?ys \<in> later_seqs xs" using vy True ly ry by (simp add: later_seqs_def)
      have "later_seqs xs = insert ?ys (later_seqs ?ys)"
      proof (intro set_eqI iffI)
        fix zs assume zs: "zs \<in> later_seqs xs"
        show "zs \<in> insert ?ys (later_seqs ?ys)"
        proof (cases "rank zs = rank ?ys")
          case True
          then have "zs = ?ys" using zs vy by (intro rank_inj) (simp_all add: later_seqs_def)
          then show ?thesis by simp
        next
          case False
          with above [OF zs] zs show ?thesis by (simp add: later_seqs_def)
        qed
      next
        fix zs assume "zs \<in> insert ?ys (later_seqs ?ys)"
        then show "zs \<in> later_seqs xs" using mem ry by (auto simp: later_seqs_def)
      qed
      then show ?thesis
        using True ly mem less.prems by (auto simp: get_next_comb_valid)
    next
      case nd: False
      have eq: "get_next_comb (pack xs) = get_next_comb (pack ?ys)"
        using nd False less.prems by (simp add: get_next_comb_valid)
      have same: "later_seqs xs = later_seqs ?ys"
      proof (intro set_eqI iffI)
        fix zs assume zs: "zs \<in> later_seqs xs"
        have "rank zs \<noteq> rank ?ys"
        proof
          assume "rank zs = rank ?ys"
          then have "zs = ?ys" using zs vy by (intro rank_inj) (simp_all add: later_seqs_def)
          with zs nd show False by (simp add: later_seqs_def)
        qed
        with above [OF zs] zs show "zs \<in> later_seqs ?ys" by (simp add: later_seqs_def)
      next
        fix zs assume "zs \<in> later_seqs ?ys"
        then show "zs \<in> later_seqs xs" using ry by (simp add: later_seqs_def)
      qed
      have "rank ?ys < first_rank NB_ACTIONS"
        using rank_bounds [OF vy] first_rank_mono [of "Suc (length ?ys)" NB_ACTIONS] ly by simp
      then have "first_rank NB_ACTIONS - rank ?ys < first_rank NB_ACTIONS - rank xs"
        using ry by simp
      from less.hyps [OF this vy ly] show ?thesis unfolding eq same .
    qed
  qed
qed

lemma finite_later_seqs: "finite (later_seqs xs)"
proof (rule finite_subset)
  show "later_seqs xs \<subseteq> {ys. set ys \<subseteq> action_ids \<and> length ys \<le> NB_ACTIONS}"
    by (auto simp: later_seqs_def)
  show "finite {ys. set ys \<subseteq> action_ids \<and> length ys \<le> NB_ACTIONS}"
    by (rule finite_lists_length_le) (simp add: action_ids_eq)
qed

lemma all_combs_spec:
  assumes "set xs \<subseteq> action_ids" "length xs < NB_ACTIONS"
  shows "\<exists>L. all_combs (Suc (card (later_seqs xs))) (pack xs) = Some (map pack L) \<and>
             sorted_wrt (\<lambda>a b. rank a < rank b) L \<and> set L = later_seqs xs"
  using assms
proof (induction "card (later_seqs xs)" arbitrary: xs rule: less_induct)
  case less
  from next_spec [OF less.prems] show ?case
  proof (elim disjE conjE exE)
    assume "get_next_comb (pack xs) = EOA" "later_seqs xs = {}"
    then show ?thesis by (intro exI [of _ "[]"]) simp
  next
    fix ys
    assume nx: "get_next_comb (pack xs) = pack ys" and mem: "ys \<in> later_seqs xs"
      and ins: "later_seqs xs = insert ys (later_seqs ys)"
    have vy: "set ys \<subseteq> action_ids" and ly: "length ys < NB_ACTIONS" and ry: "rank xs < rank ys"
      using mem by (simp_all add: later_seqs_def)
    have "ys \<noteq> []" using ry by auto
    then have ne: "pack ys \<noteq> EOA" using vy ly by (intro pack_nonzero) simp_all
    have notin: "ys \<notin> later_seqs ys" by (simp add: later_seqs_def)
    have card: "card (later_seqs xs) = Suc (card (later_seqs ys))"
      unfolding ins using notin finite_later_seqs [of ys] by simp
    then have "card (later_seqs ys) < card (later_seqs xs)" by simp
    from less.hyps [OF this vy ly] obtain L where
      L: "all_combs (Suc (card (later_seqs ys))) (pack ys) = Some (map pack L)"
         "sorted_wrt (\<lambda>a b. rank a < rank b) L" "set L = later_seqs ys"
      by blast
    have "all_combs (Suc (card (later_seqs xs))) (pack xs) = Some (map pack (ys # L))"
      unfolding card using nx ne L(1) by simp
    moreover have "sorted_wrt (\<lambda>a b. rank a < rank b) (ys # L)"
      using L(2,3) by (simp add: later_seqs_def)
    moreover have "set (ys # L) = later_seqs xs"
      using L(3) ins by simp
    ultimately show ?thesis by blast
  qed
qed

lemma rank_pos: "set ys \<subseteq> action_ids \<Longrightarrow> 0 < rank ys \<longleftrightarrow> ys \<noteq> []"
proof (cases ys)
  case Nil
  then show ?thesis by simp
next
  case (Cons a as)
  assume "set ys \<subseteq> action_ids"
  then have "1 \<le> unat a" using Cons action_id_unat [of a] by simp
  then show ?thesis using Cons by simp
qed

lemma later_seqs_Nil:
  "later_seqs [] =
     {ys. set ys \<subseteq> action_ids \<and> distinct ys \<and> 1 \<le> length ys \<and> length ys \<le> 5}"
  by (auto simp: later_seqs_def rank_pos NB_ACTIONS_def Suc_le_eq)

lemma card_action_ids: "card action_ids = 5"
  by (simp add: action_ids_eq)

lemma card_seqs_of_length:
  "k \<le> 5 \<Longrightarrow>
   card {ys. length ys = k \<and> distinct ys \<and> set ys \<subseteq> action_ids} = \<Prod>{5 - k + 1 .. 5}"
  using card_lists_distinct_length_eq [of action_ids k]
  by (simp add: card_action_ids)

lemma interval_sets:
  "{5..5::nat} = {5}" "{4..5::nat} = {4, 5}" "{3..5::nat} = {3, 4, 5}"
  "{Suc (Suc 0)..5::nat} = {2, 3, 4, 5}" "{Suc 0..5::nat} = {1, 2, 3, 4, 5}"
  by auto

lemma card_later_seqs_Nil: "card (later_seqs []) = 325"
proof -
  let ?A = "\<lambda>k. {ys. length ys = k \<and> distinct ys \<and> set ys \<subseteq> action_ids}"
  have fin: "finite (?A k)" for k
    by (rule finite_subset [OF _ finite_lists_length_le [of action_ids k]])
       (auto simp: action_ids_eq)
  have "later_seqs [] = (\<Union>k\<in>{1, 2, 3, 4, 5}. ?A k)"
    unfolding later_seqs_Nil by (auto simp: le_Suc_eq numeral_eq_Suc)
  also have "card \<dots> = (\<Sum>k\<in>{1, 2, 3, 4, 5}. card (?A k))"
    by (rule card_UN_disjoint) (use fin in auto)
  also have "\<dots> = 325"
    by (simp add: card_seqs_of_length interval_sets)
  finally show ?thesis .
qed

section \<open>The enumeration\<close>

lemma all_combs_funpow:
  "all_combs n c = Some L \<Longrightarrow>
   length L < n \<and> (\<forall>k<length L. (get_next_comb ^^ Suc k) c = L ! k) \<and>
   (get_next_comb ^^ Suc (length L)) c = EOA \<and> EOA \<notin> set L"
proof (induction n arbitrary: c L)
  case 0
  then show ?case by simp
next
  case (Suc n)
  show ?case
  proof (cases "get_next_comb c = EOA")
    case True
    with Suc.prems show ?thesis by (auto simp: Let_def)
  next
    case False
    with Suc.prems obtain L' where L': "all_combs n (get_next_comb c) = Some L'"
      "L = get_next_comb c # L'"
      by (auto simp: Let_def)
    from Suc.IH [OF L'(1)]
    have len: "length L' < n"
      and nth: "\<And>k. k < length L' \<Longrightarrow> (get_next_comb ^^ Suc k) (get_next_comb c) = L' ! k"
      and last: "(get_next_comb ^^ Suc (length L')) (get_next_comb c) = EOA"
      and notin: "EOA \<notin> set L'"
      by blast+
    have "(get_next_comb ^^ Suc k) c = L ! k" if "k < length L" for k
    proof (cases k)
      case 0
      then show ?thesis by (simp add: L'(2))
    next
      case (Suc j)
      with that have "j < length L'" by (simp add: L'(2))
      from nth [OF this] show ?thesis
        unfolding Suc L'(2) by (simp add: funpow_swap1)
    qed
    moreover have "(get_next_comb ^^ Suc (length L)) c = EOA"
      using last unfolding L'(2) by (simp add: funpow_swap1)
    ultimately show ?thesis using len notin False by (auto simp: L'(2))
  qed
qed

lemma sorted_wrt_rank_distinct: "sorted_wrt (\<lambda>a b. rank a < rank b) L \<Longrightarrow> distinct L"
  by (induction L) auto

lemma enumeration:
  "\<exists>L. all_combs 326 0 = Some (map pack L) \<and> sorted_wrt (\<lambda>a b. rank a < rank b) L \<and>
       set L = later_seqs [] \<and> length L = 325"
proof -
  from all_combs_spec [of "[]"] obtain L where
    L: "all_combs 326 0 = Some (map pack L)" "sorted_wrt (\<lambda>a b. rank a < rank b) L"
       "set L = later_seqs []"
    by (auto simp: card_later_seqs_Nil NB_ACTIONS_def)
  have "length L = card (set L)"
    using sorted_wrt_rank_distinct [OF L(2)] by (simp add: distinct_card)
  then have "length L = 325" by (simp add: L(3) card_later_seqs_Nil)
  with L show ?thesis by blast
qed

lemma later_seqs_valid:
  "ys \<in> later_seqs xs \<Longrightarrow> set ys \<subseteq> action_ids \<and> length ys \<le> NB_ACTIONS \<and> distinct ys"
  by (simp add: later_seqs_def)

lemma iterate_enumeration:
  "\<exists>L. sorted_wrt (\<lambda>a b. rank a < rank b) L \<and> set L = later_seqs [] \<and> length L = 325 \<and>
       (\<forall>k<325. (get_next_comb ^^ Suc k) 0 = pack (L ! k)) \<and>
       (get_next_comb ^^ 326) 0 = EOA"
proof -
  from enumeration obtain L where
    L: "all_combs 326 0 = Some (map pack L)" "sorted_wrt (\<lambda>a b. rank a < rank b) L"
       "set L = later_seqs []" "length L = 325"
    by blast
  from all_combs_funpow [OF L(1)] L(4)
  have "\<forall>k<325. (get_next_comb ^^ Suc k) 0 = pack (L ! k)" "(get_next_comb ^^ 326) 0 = EOA"
    by simp_all
  with L show ?thesis by blast
qed

text \<open>
  C1. Started from the empty sequence, the enumeration returns 325 packed sequences
  and then \<open>EOA\<close>. Read as action lists they are pairwise different, and they are
  exactly the lists of 1 to 5 different action ids out of the five ids 1 to 5. The
  number 325 is the sum of 5!/(5-n)! for n from 1 to 5.
\<close>

theorem all_sequences_once:
  "(\<exists>L. all_combs 326 0 = Some L \<and> length L = 325 \<and> distinct (map comb_actions L) \<and>
       set (map comb_actions L) =
         {xs. set xs \<subseteq> action_ids \<and> distinct xs \<and> 1 \<le> length xs \<and> length xs \<le> 5}) \<and>
   (\<Sum>n = 1..5. fact 5 div fact (5 - n)) = (325::nat)"
proof -
  have count: "(\<Sum>n = 1..5. fact 5 div fact (5 - n)) = (325::nat)"
    by (simp add: interval_sets fact_numeral)
  from enumeration obtain L where
    L: "all_combs 326 0 = Some (map pack L)" "sorted_wrt (\<lambda>a b. rank a < rank b) L"
       "set L = later_seqs []" "length L = 325"
    by blast
  have id: "map comb_actions (map pack L) = L"
  proof -
    have "comb_actions (pack ys) = ys" if "ys \<in> set L" for ys
      using that later_seqs_valid [of ys "[]"] L(3) by (intro comb_actions_pack) simp_all
    then have "map (\<lambda>ys. comb_actions (pack ys)) L = L" by (intro map_idI) simp
    then show ?thesis by (simp add: comp_def)
  qed
  have "distinct L" using L(2) by (rule sorted_wrt_rank_distinct)
  then have "\<exists>L. all_combs 326 0 = Some L \<and> length L = 325 \<and> distinct (map comb_actions L) \<and>
       set (map comb_actions L) =
         {xs. set xs \<subseteq> action_ids \<and> distinct xs \<and> 1 \<le> length xs \<and> length xs \<le> 5}"
    using L(1,3,4) id by (intro exI [of _ "map pack L"]) (simp add: later_seqs_Nil)
  with count show ?thesis by blast
qed

text \<open>
  C9. Iterating \<^verbatim>\<open>get_next_comb\<close> from the empty sequence, the first 325 values are not
  \<open>EOA\<close> and the 326th is. The recursion inside \<^verbatim>\<open>get_next_comb\<close> ends on every 64-bit
  input: every input is in the domain of the recursive definition.
\<close>

theorem enumeration_ends:
  "(\<forall>n. 1 \<le> n \<and> n \<le> 325 \<longrightarrow> (get_next_comb ^^ n) 0 \<noteq> EOA) \<and>
   (get_next_comb ^^ 326) 0 = EOA \<and> All get_next_comb_dom"
proof -
  from iterate_enumeration obtain L where
    L: "set L = later_seqs []" "length L = 325"
       "\<forall>k<325. (get_next_comb ^^ Suc k) 0 = pack (L ! k)"
       "(get_next_comb ^^ 326) 0 = EOA"
    by blast
  have "(get_next_comb ^^ n) 0 \<noteq> EOA" if "1 \<le> n" "n \<le> 325" for n
  proof -
    from that obtain k where k: "n = Suc k" "k < 325" by (cases n) auto
    then have mem: "L ! k \<in> later_seqs []" using L(1,2) nth_mem [of k L] by simp
    then have "L ! k \<noteq> []" by (auto simp: later_seqs_Nil)
    then have "pack (L ! k) \<noteq> EOA"
      using later_seqs_valid [OF mem] by (intro pack_nonzero) simp_all
    then show ?thesis using L(3) k by simp
  qed
  then show ?thesis using L(4) get_next_comb_total by blast
qed

theorem enumeration_ends_witness:
  "(get_next_comb ^^ 1) 0 \<noteq> EOA \<and> (get_next_comb ^^ 325) 0 \<noteq> EOA \<and>
   (get_next_comb ^^ 326) 0 = EOA"
proof -
  have a: "\<forall>n. 1 \<le> n \<and> n \<le> 325 \<longrightarrow> (get_next_comb ^^ n) 0 \<noteq> EOA"
    and b: "(get_next_comb ^^ 326) 0 = EOA"
    using enumeration_ends by blast+
  have "(get_next_comb ^^ 1) 0 \<noteq> EOA" using a by (rule allE [of _ 1]) simp
  moreover have "(get_next_comb ^^ 325) 0 \<noteq> EOA" using a by (rule allE [of _ 325]) simp
  ultimately show ?thesis using b by blast
qed

text \<open>
  C6, as amended. \<^verbatim>\<open>get_next_comb\<close> enumerates in odometer order, shorter sequences
  first: the successor of a sequence is its odometer increment (position 0 is advanced
  first, a position that passes the last action id returns to the first one and carries
  into the next position, and the sequence grows by one position only when all its
  positions carry), repeated until no action id occurs twice. Hence the lengths of the
  emitted sequences never decrease, and the successor of [prefetch] is [fetchinfo].
\<close>

theorem odometer_order:
  "(set xs \<subseteq> action_ids \<and> length xs < NB_ACTIONS \<longrightarrow>
      get_next_comb (pack xs) =
        (if NB_ACTIONS \<le> length (odo_inc xs) then EOA
         else if distinct (odo_inc xs) then pack (odo_inc xs)
         else get_next_comb (pack (odo_inc xs)))) \<and>
   (1 \<le> m \<and> m \<le> n \<and> n \<le> 325 \<longrightarrow>
      length (comb_actions ((get_next_comb ^^ m) 0)) \<le> length (comb_actions ((get_next_comb ^^ n) 0))) \<and>
   get_next_comb (pack [ACTION_PREFETCH]) = pack [ACTION_FETCH_INFO]"
proof -
  from iterate_enumeration obtain L where
    L: "sorted_wrt (\<lambda>a b. rank a < rank b) L" "set L = later_seqs []" "length L = 325"
       "\<forall>k<325. (get_next_comb ^^ Suc k) 0 = pack (L ! k)"
    by blast
  have seq: "comb_actions ((get_next_comb ^^ Suc k) 0) = L ! k \<and> set (L ! k) \<subseteq> action_ids"
    if "k < 325" for k
  proof -
    have mem: "L ! k \<in> later_seqs []" using that L(2,3) nth_mem [of k L] by simp
    then show ?thesis
      using L(4) that later_seqs_valid [OF mem] by (simp add: comb_actions_pack)
  qed
  have mono: "length (comb_actions ((get_next_comb ^^ m) 0)) \<le> length (comb_actions ((get_next_comb ^^ n) 0))"
    if "1 \<le> m" "m \<le> n" "n \<le> 325"
  proof -
    from that obtain i j where ij: "m = Suc i" "n = Suc j" "i \<le> j" "j < 325"
      by (cases m; cases n) auto
    have "rank (L ! i) \<le> rank (L ! j)"
    proof (cases "i = j")
      case True
      then show ?thesis by simp
    next
      case False
      with ij have "i < j" by simp
      then have "rank (L ! i) < rank (L ! j)"
        using L(1,3) ij(4) by (simp add: sorted_wrt_iff_nth_less)
      then show ?thesis by simp
    qed
    then have "length (L ! i) \<le> length (L ! j)"
      using seq [of i] seq [of j] ij by (intro rank_length_mono) simp_all
    then show ?thesis using seq [of i] seq [of j] ij by simp
  qed
  have ex: "get_next_comb (pack [ACTION_PREFETCH]) = pack [ACTION_FETCH_INFO]"
    by (subst get_next_comb_valid)
       (simp_all add: action_ids_eq ACTION_PREFETCH_def ACTION_FETCH_INFO_def NB_ACTIONS_def)
  show ?thesis using get_next_comb_valid [of xs] mono ex by blast
qed

theorem odometer_order_witness:
  "get_next_comb (pack [2]) = pack [3] \<and>
   length (comb_actions ((get_next_comb ^^ 1) 0)) \<le> length (comb_actions ((get_next_comb ^^ 325) 0))"
  using odometer_order [of "[2]" 1 325]
  by (simp add: action_ids_eq NB_ACTIONS_def)

text \<open>
  C6 as stated fails: the successor of the one-action sequence [prefetch] is the
  one-action sequence [fetchinfo], not an extension of [prefetch].
\<close>

theorem successor_of_prefetch:
  "comb_actions 1 = [ACTION_PREFETCH] \<and>
   comb_actions (get_next_comb 1) = [ACTION_FETCH_INFO] \<and>
   length (comb_actions (get_next_comb 1)) = length (comb_actions 1) \<and>
   map (\<lambda>n. comb_actions ((get_next_comb ^^ n) 0)) [1, 2, 3, 4, 5, 6] =
     [[1], [2], [3], [4], [5], [2, 1]]"
proof -
  have step: "get_next_comb (pack [1]) = pack [2]" "get_next_comb (pack [2]) = pack [3]"
    "get_next_comb (pack [3]) = pack [4]" "get_next_comb (pack [4]) = pack [5]"
    by (subst get_next_comb_valid; simp add: action_ids_eq NB_ACTIONS_def)+
  have "get_next_comb (pack [1, 1]) = pack [2, 1]"
    by (subst get_next_comb_valid) (simp_all add: action_ids_eq NB_ACTIONS_def)
  then have wrap: "get_next_comb (pack [5]) = pack [2, 1]"
    by (subst get_next_comb_valid) (simp_all add: action_ids_eq NB_ACTIONS_def)
  have first: "get_next_comb (pack []) = pack [1]"
    by (subst get_next_comb_valid) (simp_all add: action_ids_eq NB_ACTIONS_def)
  have seqs: "comb_actions (pack [1]) = [1]" "comb_actions (pack [2]) = [2]"
    "comb_actions (pack [3]) = [3]" "comb_actions (pack [4]) = [4]"
    "comb_actions (pack [5]) = [5]" "comb_actions (pack [2, 1]) = [2, 1]"
    by (rule comb_actions_pack; simp add: action_ids_eq NB_ACTIONS_def)+
  have nx: "get_next_comb 0 = 1" "get_next_comb 1 = 2" "get_next_comb 2 = 3"
    "get_next_comb 3 = 4" "get_next_comb 4 = 5" "get_next_comb 5 = 18"
    using first step wrap by simp_all
  have ca: "comb_actions 1 = [1]" "comb_actions 2 = [2]" "comb_actions 3 = [3]"
    "comb_actions 4 = [4]" "comb_actions 5 = [5]" "comb_actions 18 = [2, 1]"
    using seqs by simp_all
  show ?thesis
    by (simp add: eval_nat_numeral nx ca ACTION_PREFETCH_def ACTION_FETCH_INFO_def)
qed

end

